theory Spec2Isabelle
  imports Main "HOL-Library.Sublist" "HOL-Library.AList"
begin

section \<open>Strings\<close>

text \<open>
  A JavaScript string is a sequence of UTF-16 code units; \<open>length\<close>, \<open>trim\<close> and the
  regular expressions of the source all count code units. The literal \<open>js ''abc''\<close> is
  the string of the code units of its ASCII characters.
\<close>

type_synonym jsstring = "nat list"

definition js :: "string \<Rightarrow> jsstring" where
  "js s = map of_char s"

definition slash :: nat where
  "slash = 47"

text \<open>
  \<open>String.prototype.trim\<close> strips WhiteSpace and LineTerminator code units from both
  ends: TAB, LF, VT, FF, CR, SP, NBSP, U+1680, U+2000..U+200A, U+2028, U+2029, U+202F,
  U+205F, U+3000 and U+FEFF.
\<close>

definition isWhiteSpace :: "nat \<Rightarrow> bool" where
  "isWhiteSpace c \<longleftrightarrow>
     c = 9 \<or> c = 10 \<or> c = 11 \<or> c = 12 \<or> c = 13 \<or> c = 32 \<or> c = 160 \<or> c = 5760 \<or>
     (8192 \<le> c \<and> c \<le> 8202) \<or> c = 8232 \<or> c = 8233 \<or> c = 8239 \<or> c = 8287 \<or>
     c = 12288 \<or> c = 65279"

definition trim :: "jsstring \<Rightarrow> jsstring" where
  "trim s = rev (dropWhile isWhiteSpace (rev (dropWhile isWhiteSpace s)))"

definition startsWith :: "jsstring \<Rightarrow> jsstring \<Rightarrow> bool" where
  "startsWith s p \<longleftrightarrow> take (length p) s = p"

text \<open>\<open>s.split(sep)\<close> for a one-unit separator: \<open>"".split(".")\<close> is \<open>[""]\<close>.\<close>

fun split_on :: "nat \<Rightarrow> jsstring \<Rightarrow> jsstring list" where
  "split_on sep [] = [[]]"
| "split_on sep (c # cs) =
     (if c = sep then [] # split_on sep cs
      else (case split_on sep cs of
              [] \<Rightarrow> [[c]]
            | seg # segs \<Rightarrow> (c # seg) # segs))"

fun join_with :: "nat \<Rightarrow> jsstring list \<Rightarrow> jsstring" where
  "join_with sep [] = []"
| "join_with sep [x] = x"
| "join_with sep (x # y # r) = x @ sep # join_with sep (y # r)"

text \<open>Decimal text of a natural number, as a template literal prints an integer.\<close>

fun decimal :: "nat \<Rightarrow> jsstring" where
  "decimal n = (if n < 10 then [48 + n] else decimal (n div 10) @ [48 + n mod 10])"

declare decimal.simps [simp del]

definition show_int :: "int \<Rightarrow> jsstring" where
  "show_int i = (if i < 0 then js ''-'' @ decimal (nat (- i)) else decimal (nat i))"

section \<open>The \<open>path\<close> module (POSIX)\<close>

text \<open>
  Node's \<open>normalizeString\<close> walks the segments between slashes keeping a result: an empty
  segment and \<open>.\<close> are skipped, \<open>..\<close> drops the last segment of the result when there
  is one that is not itself \<open>..\<close> (and is kept only when \<open>allowAboveRoot\<close>), every
  other segment is appended.
\<close>

definition normStep :: "bool \<Rightarrow> jsstring list \<Rightarrow> jsstring \<Rightarrow> jsstring list" where
  "normStep allowAboveRoot res seg =
     (if seg = [] \<or> seg = js ''.'' then res
      else if seg = js ''..'' then
        (if res \<noteq> [] \<and> last res \<noteq> js ''..'' then butlast res
         else if allowAboveRoot then res @ [js ''..'']
         else res)
      else res @ [seg])"

definition normSegments :: "bool \<Rightarrow> jsstring list \<Rightarrow> jsstring list" where
  "normSegments allowAboveRoot segs = foldl (normStep allowAboveRoot) [] segs"

definition normalizeString :: "jsstring \<Rightarrow> bool \<Rightarrow> jsstring" where
  "normalizeString path allowAboveRoot =
     join_with slash (normSegments allowAboveRoot (split_on slash path))"

text \<open>
  \<open>path.resolve(...args)\<close>: the arguments are read from the right, then the working
  directory, until an absolute one is met; empty arguments are skipped.
\<close>

fun resolveArgs :: "jsstring list \<Rightarrow> jsstring \<Rightarrow> jsstring \<times> bool" where
  "resolveArgs [] resolvedPath = (resolvedPath, False)"
| "resolveArgs ([] # ps) resolvedPath = resolveArgs ps resolvedPath"
| "resolveArgs ((c # cs) # ps) resolvedPath =
     (if c = slash then ((c # cs) @ slash # resolvedPath, True)
      else resolveArgs ps ((c # cs) @ slash # resolvedPath))"

definition path_resolve :: "jsstring \<Rightarrow> jsstring list \<Rightarrow> jsstring" where
  "path_resolve cwd args =
     (case resolveArgs (rev args @ [cwd]) [] of
        (resolvedPath, resolvedAbsolute) \<Rightarrow>
          (let n = normalizeString resolvedPath (\<not> resolvedAbsolute)
           in if resolvedAbsolute then slash # n
              else if n \<noteq> [] then n else js ''.''))"

definition path_normalize :: "jsstring \<Rightarrow> jsstring" where
  "path_normalize path =
     (if path = [] then js ''.''
      else
        (let isAbsolute = (hd path = slash);
             trailingSeparator = (last path = slash);
             p = normalizeString path (\<not> isAbsolute)
         in if p = [] then
              (if isAbsolute then js ''/''
               else if trailingSeparator then js ''./'' else js ''.'')
            else
              (let p' = (if trailingSeparator then p @ [slash] else p)
               in if isAbsolute then slash # p' else p')))"

definition path_join :: "jsstring list \<Rightarrow> jsstring" where
  "path_join args =
     (let joined = filter (\<lambda>a. a \<noteq> []) args
      in if joined = [] then js ''.'' else path_normalize (join_with slash joined))"

text \<open>
  A proper segment is a name a directory entry can bear: not empty, free of slashes, and
  neither \<open>.\<close> nor \<open>..\<close>. \<open>absPath p\<close> is the absolute path string whose segments
  are \<open>p\<close>.
\<close>

definition properSegment :: "jsstring \<Rightarrow> bool" where
  "properSegment seg \<longleftrightarrow> seg \<noteq> [] \<and> slash \<notin> set seg \<and> seg \<noteq> js ''.'' \<and> seg \<noteq> js ''..''"

definition absPath :: "jsstring list \<Rightarrow> jsstring" where
  "absPath p = slash # join_with slash p"

text \<open>What \<open>normalizeString\<close> leaves in its result when it may rise above the root:
  proper segments and \<open>..\<close>.\<close>

definition plainSegment :: "jsstring \<Rightarrow> bool" where
  "plainSegment e \<longleftrightarrow> properSegment e \<or> e = js ''..''"

section \<open>Errors\<close>

datatype errno = ENOENT | ENOTDIR | EISDIR | EEXIST | EACCES | EBUSY

datatype error =
    Error jsstring
  | SyntaxError
  | TypeError
  | SystemError errno "jsstring list"
  | ChildProcessError jsstring

section \<open>Path sanitizer\<close>

text \<open>The character class of the guard: backtick, dollar, pipe, semicolon, ampersand,
  less-than, greater-than and NUL.\<close>

definition dangerous :: "nat list" where
  "dangerous = js ''`$|;&<>'' @ [0]"

text \<open>
  \<open>sanitizePath\<close>; the working directory that \<open>path.resolve\<close> reads is the first
  argument. The parameter is typed \<open>string\<close>, so the \<open>typeof\<close> test never fires.
\<close>

definition sanitizePath :: "jsstring \<Rightarrow> jsstring \<Rightarrow> error + jsstring" where
  "sanitizePath cwd inputPath =
     (if trim inputPath = [] then Inl (Error (js ''Path must be a non-empty string''))
      else
        (let trimmed = trim inputPath
         in if startsWith trimmed (js ''-'') \<or> (\<exists>c \<in> set trimmed. c \<in> set dangerous)
            then Inl (Error (js ''Invalid path: contains dangerous characters''))
            else Inr (path_normalize (path_resolve cwd [trimmed]))))"

section \<open>The file system\<close>

text \<open>
  The file system is a tree of plain files and directories; a directory lists its
  entries in the order \<open>readdirSync\<close> reports them. Symbolic links, permission bits and
  timestamps are not part of the model. A file holds its text (the string that
  \<open>readFileSync(_, "utf8")\<close> yields).
\<close>

datatype node = File jsstring | Dir "(jsstring \<times> node) list"

type_synonym path = "jsstring list"

fun lookup :: "node \<Rightarrow> path \<Rightarrow> node option" where
  "lookup t [] = Some t"
| "lookup t (x # p) =
     (case t of
        File _ \<Rightarrow> None
      | Dir es \<Rightarrow> (case map_of es x of None \<Rightarrow> None | Some c \<Rightarrow> lookup c p))"

text \<open>\<open>store p v t\<close> puts \<open>v\<close> at \<open>p\<close>: in place when \<open>p\<close> exists, as a new last entry
  of its parent otherwise.\<close>

fun store :: "path \<Rightarrow> node \<Rightarrow> node \<Rightarrow> node" where
  "store [] v t = v"
| "store (x # p) v t =
     (case t of
        File c \<Rightarrow> File c
      | Dir es \<Rightarrow>
          (case map_of es x of
             None \<Rightarrow> (if p = [] then Dir (es @ [(x, v)]) else Dir es)
           | Some c \<Rightarrow> Dir (AList.update x (store p v c) es)))"

fun remove :: "path \<Rightarrow> node \<Rightarrow> node" where
  "remove [] t = t"
| "remove (x # p) t =
     (case t of
        File c \<Rightarrow> File c
      | Dir es \<Rightarrow>
          (if p = [] then Dir (AList.delete x es)
           else (case map_of es x of
                   None \<Rightarrow> Dir es
                 | Some c \<Rightarrow> Dir (AList.update x (remove p c) es))))"

text \<open>\<open>mkdir -p\<close>: missing directories are created along the path; a file on the way
  is \<open>ENOTDIR\<close>, a file at the end is \<open>EEXIST\<close>.\<close>

fun mkdirp :: "path \<Rightarrow> node \<Rightarrow> errno + node" where
  "mkdirp [] t = (case t of File _ \<Rightarrow> Inl EEXIST | Dir _ \<Rightarrow> Inr t)"
| "mkdirp (x # p) t =
     (case t of
        File _ \<Rightarrow> Inl ENOTDIR
      | Dir es \<Rightarrow>
          (case map_of es x of
             None \<Rightarrow>
               (case mkdirp p (Dir []) of
                  Inl e \<Rightarrow> Inl e
                | Inr c \<Rightarrow> Inr (Dir (es @ [(x, c)])))
           | Some c \<Rightarrow>
               (case mkdirp p c of
                  Inl e \<Rightarrow> Inl e
                | Inr c' \<Rightarrow> Inr (Dir (AList.update x c' es)))))"

section \<open>The host\<close>

text \<open>
  What a run reads from its environment and cannot compute: the runtime's version, the
  working directory, the temporary directory, the clock, which file operations the
  operating system refuses (permissions, busy resources), what a subprocess does to the
  file system, and the platform's JSON reader and printer.
\<close>

datatype fsop =
    Readdir path | Mkdir path | CopyFile path path | Rm path | ReadFile path | WriteFile path

datatype invocation =
    ExecFile jsstring "jsstring list" "jsstring option"
  | ExecShell jsstring "jsstring option"

text \<open>The result of an effectful call: it returns, it throws, or it has not finished
  within the recursion depth granted to it.\<close>

datatype 'a outcome = Returns 'a node | Throws error node | OutOfFuel

text \<open>A number is a double: a finite one, written by its significand and its binary
  exponent, an infinity, or \<open>NaN\<close>.\<close>

datatype number = Finite int int | PlusInfinity | MinusInfinity | NaN

datatype json =
    JNull | JBool bool | JNumber number | JString jsstring
  | JArray "json list" | JObject "(jsstring \<times> json) list"

record host =
  version_major :: nat
  version_minor :: nat
  version_patch :: nat
  process_cwd :: jsstring
  os_tmpdir :: jsstring
  Date_now :: nat
  refuses :: "fsop \<Rightarrow> bool"
  spawn :: "invocation \<Rightarrow> node \<Rightarrow> unit outcome"
  JSON_parse :: "jsstring \<Rightarrow> json option"
  JSON_stringify :: "json \<Rightarrow> nat \<Rightarrow> jsstring"

definition process_version :: "host \<Rightarrow> jsstring" where
  "process_version h =
     js ''v'' @ decimal (version_major h) @ js ''.'' @ decimal (version_minor h) @
     js ''.'' @ decimal (version_patch h)"

definition permissive :: "host \<Rightarrow> bool" where
  "permissive h \<longleftrightarrow> (\<forall>op. \<not> refuses h op)"

definition andThen :: "'a outcome \<Rightarrow> ('a \<Rightarrow> node \<Rightarrow> 'b outcome) \<Rightarrow> 'b outcome" where
  "andThen m f = (case m of Returns a fs \<Rightarrow> f a fs | Throws e fs \<Rightarrow> Throws e fs | OutOfFuel \<Rightarrow> OutOfFuel)"

definition lift :: "error + 'a \<Rightarrow> node \<Rightarrow> 'a outcome" where
  "lift r fs = (case r of Inl e \<Rightarrow> Throws e fs | Inr a \<Rightarrow> Returns a fs)"

section \<open>The \<open>fs\<close> module\<close>

text \<open>
  The operating system resolves a path string against the working directory; the empty
  string names nothing. Resolution goes by segments, \<open>..\<close> dropping the segment before
  it: that is what the system does on a tree without symbolic links, except for a
  \<open>..\<close> after a name that is no directory, which the strings the program builds with
  \<open>path.resolve\<close> and \<open>path.join\<close> do not hold. Limits on the length of names and
  paths are not modelled.
\<close>

definition fs_path :: "host \<Rightarrow> jsstring \<Rightarrow> path option" where
  "fs_path h s =
     (if s = [] then None
      else Some (normSegments False
             ((if hd s = slash then [] else split_on slash (process_cwd h)) @ split_on slash s)))"

definition existsSync :: "host \<Rightarrow> jsstring \<Rightarrow> node \<Rightarrow> bool" where
  "existsSync h s fs =
     (case fs_path h s of None \<Rightarrow> False | Some p \<Rightarrow> lookup fs p \<noteq> None)"

definition isDirectory :: "node \<Rightarrow> bool" where
  "isDirectory n = (case n of File _ \<Rightarrow> False | Dir _ \<Rightarrow> True)"

text \<open>\<open>readdirSync\<close>, with the entries' types: each entry is its name and whether it is
  a directory.\<close>

definition readdirSync :: "host \<Rightarrow> jsstring \<Rightarrow> node \<Rightarrow> error + (jsstring \<times> bool) list" where
  "readdirSync h s fs =
     (case fs_path h s of
        None \<Rightarrow> Inl (SystemError ENOENT [])
      | Some p \<Rightarrow>
          (case lookup fs p of
             None \<Rightarrow> Inl (SystemError ENOENT p)
           | Some (File _) \<Rightarrow> Inl (SystemError ENOTDIR p)
           | Some (Dir es) \<Rightarrow>
               if refuses h (Readdir p) then Inl (SystemError EACCES p)
               else Inr (map (\<lambda>(name, n). (name, isDirectory n)) es)))"

text \<open>\<open>mkdirSync(_, { recursive: true })\<close>.\<close>

definition mkdirSync :: "host \<Rightarrow> jsstring \<Rightarrow> node \<Rightarrow> unit outcome" where
  "mkdirSync h s fs =
     (case fs_path h s of
        None \<Rightarrow> Throws (SystemError ENOENT []) fs
      | Some p \<Rightarrow>
          (case mkdirp p fs of
             Inl e \<Rightarrow> Throws (SystemError e p) fs
           | Inr fs' \<Rightarrow>
               if refuses h (Mkdir p) then Throws (SystemError EACCES p) fs
               else Returns () fs'))"

definition readFileSync :: "host \<Rightarrow> jsstring \<Rightarrow> node \<Rightarrow> error + jsstring" where
  "readFileSync h s fs =
     (case fs_path h s of
        None \<Rightarrow> Inl (SystemError ENOENT [])
      | Some p \<Rightarrow>
          (case lookup fs p of
             None \<Rightarrow> Inl (SystemError ENOENT p)
           | Some (Dir _) \<Rightarrow> Inl (SystemError EISDIR p)
           | Some (File text) \<Rightarrow>
               if refuses h (ReadFile p) then Inl (SystemError EACCES p) else Inr text))"

text \<open>Writing a file needs its directory; it replaces a file and refuses a directory.\<close>

definition writeNode :: "path \<Rightarrow> jsstring \<Rightarrow> node \<Rightarrow> errno + node" where
  "writeNode p text fs =
     (if p = [] then Inl EISDIR
      else (case lookup fs (butlast p) of
              None \<Rightarrow> Inl ENOENT
            | Some (File _) \<Rightarrow> Inl ENOTDIR
            | Some (Dir _) \<Rightarrow>
                (case lookup fs p of
                   Some (Dir _) \<Rightarrow> Inl EISDIR
                 | _ \<Rightarrow> Inr (store p (File text) fs))))"

definition writeFileSync :: "host \<Rightarrow> jsstring \<Rightarrow> jsstring \<Rightarrow> node \<Rightarrow> unit outcome" where
  "writeFileSync h s text fs =
     (case fs_path h s of
        None \<Rightarrow> Throws (SystemError ENOENT []) fs
      | Some p \<Rightarrow>
          (case writeNode p text fs of
             Inl e \<Rightarrow> Throws (SystemError e p) fs
           | Inr fs' \<Rightarrow>
               if refuses h (WriteFile p) then Throws (SystemError EACCES p) fs
               else Returns () fs'))"

definition copyFileSync :: "host \<Rightarrow> jsstring \<Rightarrow> jsstring \<Rightarrow> node \<Rightarrow> unit outcome" where
  "copyFileSync h src dest fs =
     (case (fs_path h src, fs_path h dest) of
        (Some p, Some q) \<Rightarrow>
          (case lookup fs p of
             None \<Rightarrow> Throws (SystemError ENOENT p) fs
           | Some (Dir _) \<Rightarrow> Throws (SystemError EISDIR p) fs
           | Some (File text) \<Rightarrow>
               (case writeNode q text fs of
                  Inl e \<Rightarrow> Throws (SystemError e q) fs
                | Inr fs' \<Rightarrow>
                    if refuses h (CopyFile p q) then Throws (SystemError EACCES q) fs
                    else Returns () fs'))
      | _ \<Rightarrow> Throws (SystemError ENOENT []) fs)"

text \<open>\<open>rmSync(_, { recursive: true, force: true })\<close>: a path that does not exist is
  no error; the root directory cannot be removed.\<close>

definition rmSync :: "host \<Rightarrow> jsstring \<Rightarrow> node \<Rightarrow> unit outcome" where
  "rmSync h s fs =
     (case fs_path h s of
        None \<Rightarrow> Returns () fs
      | Some p \<Rightarrow>
          (case lookup fs p of
             None \<Rightarrow> Returns () fs
           | Some _ \<Rightarrow>
               if p = [] then Throws (SystemError EBUSY p) fs
               else if refuses h (Rm p) then Throws (SystemError EACCES p) fs
               else Returns () (remove p fs)))"

section \<open>Environment checks\<close>

text \<open>
  \<open>Number(major)\<close> on the text before the first dot of \<open>process.version\<close>, which is a
  run of decimal digits; any other text is read as \<open>NaN\<close> (\<open>None\<close>), and a comparison
  with \<open>NaN\<close> is false.
\<close>

definition isDigit :: "nat \<Rightarrow> bool" where
  "isDigit c \<longleftrightarrow> 48 \<le> c \<and> c \<le> 57"

definition js_Number :: "jsstring \<Rightarrow> nat option" where
  "js_Number s =
     (if s \<noteq> [] \<and> list_all isDigit s then Some (foldl (\<lambda>a c. 10 * a + (c - 48)) 0 s)
      else None)"

text \<open>\<open>s.replace("v", "")\<close> drops the first \<open>v\<close> of \<open>s\<close>.\<close>

definition checkNodeVersion :: "host \<Rightarrow> int \<Rightarrow> error + unit" where
  "checkNodeVersion h minMajor =
     (case split_on (of_char CHR ''.'') (remove1 (of_char CHR ''v'') (process_version h)) of
        [] \<Rightarrow> Inr ()
      | major # _ \<Rightarrow>
          (case js_Number major of
             None \<Rightarrow> Inr ()
           | Some m \<Rightarrow>
               if int m < minMajor
               then Inl (Error (js ''Node.js v'' @ show_int minMajor @ js ''+ required''))
               else Inr ()))"

definition checkGitInstalled :: "host \<Rightarrow> node \<Rightarrow> unit outcome" where
  "checkGitInstalled h fs =
     (case spawn h (ExecFile (js ''git'') [js ''--version''] None) fs of
        Returns _ fs' \<Rightarrow> Returns () fs'
      | Throws _ fs' \<Rightarrow>
          Throws (Error (js ''Git is not installed. Please install git and try again.'')) fs'
      | OutOfFuel \<Rightarrow> OutOfFuel)"

section \<open>Template acquisition\<close>

definition repoUrl :: jsstring where
  "repoUrl = js ''https://github.com/SamNewhouse/create-stb.git''"

definition cloneBoilerplate :: "host \<Rightarrow> jsstring \<Rightarrow> node \<Rightarrow> jsstring outcome" where
  "cloneBoilerplate h tempDir fs =
     andThen (lift (sanitizePath (process_cwd h) tempDir) fs) (\<lambda>safeTempDir fs.
     let clonePath = path_join [safeTempDir, js ''create-stb-temp''] in
     andThen (lift (sanitizePath (process_cwd h) clonePath) fs) (\<lambda>safeClonePath fs.
     andThen (spawn h (ExecFile (js ''git'')
                [js ''clone'', js ''--depth'', js ''1'', js ''--filter=blob:none'', js ''--sparse'',
                 repoUrl, safeClonePath] None) fs) (\<lambda>_ fs.
     andThen (spawn h (ExecFile (js ''git'')
                [js ''sparse-checkout'', js ''set'', js ''serverless''] (Some safeClonePath)) fs) (\<lambda>_ fs.
     Returns (path_join [safeClonePath, js ''serverless'']) fs))))"

section \<open>Directory materializer\<close>

definition dquote :: nat where
  "dquote = 34"

definition createProjectDirectory :: "host \<Rightarrow> jsstring \<Rightarrow> node \<Rightarrow> unit outcome" where
  "createProjectDirectory h projectPath fs =
     (if existsSync h projectPath fs then
        (case readdirSync h projectPath fs of
           Inl e \<Rightarrow> Throws e fs
         | Inr entries \<Rightarrow>
             if length entries = 0 then Returns () fs
             else Throws (Error (js ''Directory '' @ [dquote] @ projectPath @ [dquote] @
                                 js '' exists and is not empty.'')) fs)
      else mkdirSync h projectPath fs)"


text \<open>
  \<open>copyDir\<close> recurses into the directories it reads from the file system as it is at
  that moment, so nothing bounds its depth beforehand (a destination inside the source
  grows as it is read): the first argument is the recursion depth granted.
\<close>

fun copyDir :: "nat \<Rightarrow> host \<Rightarrow> jsstring \<Rightarrow> jsstring \<Rightarrow> node \<Rightarrow> unit outcome"
  and copyEntries ::
    "nat \<Rightarrow> host \<Rightarrow> jsstring \<Rightarrow> jsstring \<Rightarrow> (jsstring \<times> bool) list \<Rightarrow> node \<Rightarrow> unit outcome"
  where
  "copyDir 0 h src dest fs = OutOfFuel"
| "copyDir (Suc n) h src dest fs =
     andThen (if \<not> existsSync h dest fs then mkdirSync h dest fs else Returns () fs) (\<lambda>_ fs.
     andThen (lift (readdirSync h src fs) fs) (\<lambda>entries fs.
     copyEntries n h src dest entries fs))"
| "copyEntries n h src dest [] fs = Returns () fs"
| "copyEntries n h src dest ((name, isDir) # entries) fs =
     (let srcPath = path_join [src, name];
          destPath = path_join [dest, name]
      in andThen (if isDir then copyDir n h srcPath destPath fs
                  else copyFileSync h srcPath destPath fs) (\<lambda>_ fs.
         copyEntries n h src dest entries fs))"

definition cleanupTemp :: "host \<Rightarrow> jsstring \<Rightarrow> node \<Rightarrow> unit outcome" where
  "cleanupTemp h tempDir fs =
     (if existsSync h tempDir fs then rmSync h tempDir fs else Returns () fs)"

section \<open>Metadata rewriter\<close>

text \<open>
  \<open>pkg.name = v\<close> on the value that \<open>JSON.parse\<close> returned. On an object the property
  is replaced where it stands or added last. On \<open>null\<close> and (the module being strict
  code) on a primitive the assignment throws a \<open>TypeError\<close>. An array takes the property,
  which \<open>JSON.stringify\<close> then leaves out: the array is what gets printed.
\<close>

definition setProperty :: "json \<Rightarrow> jsstring \<Rightarrow> json \<Rightarrow> error + json" where
  "setProperty obj key v =
     (case obj of
        JObject kvs \<Rightarrow> Inr (JObject (AList.update key v kvs))
      | JArray xs \<Rightarrow> Inr (JArray xs)
      | _ \<Rightarrow> Inl TypeError)"

definition updatePackageJson :: "host \<Rightarrow> jsstring \<Rightarrow> jsstring \<Rightarrow> node \<Rightarrow> unit outcome" where
  "updatePackageJson h projectPath projectName fs =
     (let file = path_join [projectPath, js ''package.json'']
      in if \<not> existsSync h file fs then Returns () fs
         else
           andThen (lift (readFileSync h file fs) fs) (\<lambda>text fs.
           andThen (lift (case JSON_parse h text of None \<Rightarrow> Inl SyntaxError | Some v \<Rightarrow> Inr v) fs) (\<lambda>pkg fs.
           andThen (lift (setProperty pkg (js ''name'') (JString projectName)) fs) (\<lambda>pkg fs.
           andThen (lift (setProperty pkg (js ''description'')
                            (JString (projectName @ js '' app description''))) fs) (\<lambda>pkg fs.
           writeFileSync h file (JSON_stringify h pkg 2) fs)))))"

text \<open>
  \<open>content.replace(/^service:.*$/m, replacement)\<close>. The regular expression matches at
  the start of the text or after a line terminator (LF, CR, U+2028, U+2029), then
  \<open>service:\<close>, then every code unit up to the next line terminator or the end.
  \<open>serviceExec\<close> finds the first match and returns the text before it, the match and
  the text after it.
\<close>

definition isLineTerminator :: "nat \<Rightarrow> bool" where
  "isLineTerminator c \<longleftrightarrow> c = 10 \<or> c = 13 \<or> c = 8232 \<or> c = 8233"

fun serviceExec :: "bool \<Rightarrow> jsstring \<Rightarrow> (jsstring \<times> jsstring \<times> jsstring) option" where
  "serviceExec atLineStart [] = None"
| "serviceExec atLineStart (c # cs) =
     (if atLineStart \<and> startsWith (c # cs) (js ''service:'') then
        (let rest = drop (length (js ''service:'')) (c # cs)
         in Some ([], js ''service:'' @ takeWhile (\<lambda>u. \<not> isLineTerminator u) rest,
                  dropWhile (\<lambda>u. \<not> isLineTerminator u) rest))
      else map_option (\<lambda>(pre, matched, post). (c # pre, matched, post))
             (serviceExec (isLineTerminator c) cs))"

text \<open>
  The replacement text is a template (\<open>GetSubstitution\<close>): \<open>$$\<close> stands for a dollar,
  \<open>$&\<close> for the match, \<open>$`\<close> for the text pre it, \<open>$'\<close> for the text post it; the
  expression has no groups, so every other dollar stands for itself.
\<close>

fun getSubstitution :: "jsstring \<Rightarrow> jsstring \<Rightarrow> jsstring \<Rightarrow> jsstring \<Rightarrow> jsstring" where
  "getSubstitution matched pre post [] = []"
| "getSubstitution matched pre post [c] = [c]"
| "getSubstitution matched pre post (c # d # r) =
     (if c = 36 then
        (if d = 36 then 36 # getSubstitution matched pre post r
         else if d = 38 then matched @ getSubstitution matched pre post r
         else if d = 96 then pre @ getSubstitution matched pre post r
         else if d = 39 then post @ getSubstitution matched pre post r
         else c # getSubstitution matched pre post (d # r))
      else c # getSubstitution matched pre post (d # r))"

definition replaceService :: "jsstring \<Rightarrow> jsstring \<Rightarrow> jsstring" where
  "replaceService content replacement =
     (case serviceExec True content of
        None \<Rightarrow> content
      | Some (pre, matched, post) \<Rightarrow>
          pre @ getSubstitution matched pre post replacement @ post)"

definition updateServerlessYml :: "host \<Rightarrow> jsstring \<Rightarrow> jsstring \<Rightarrow> node \<Rightarrow> unit outcome" where
  "updateServerlessYml h projectPath projectName fs =
     (let serverlessPath = path_join [projectPath, js ''serverless.yml'']
      in if \<not> existsSync h serverlessPath fs then Returns () fs
         else
           andThen (lift (readFileSync h serverlessPath fs) fs) (\<lambda>content fs.
           writeFileSync h serverlessPath
             (replaceService content (js ''service: '' @ projectName)) fs))"

section \<open>Orchestrator\<close>

text \<open>
  \<open>main\<close> reads the project name from \<open>process.argv[2]\<close>; without one it prints the
  usage line and leaves through \<open>process.exit(1)\<close>. The status line written between the
  steps is not modelled.
\<close>

datatype status = Completed | Exited nat

definition mainSteps ::
  "nat \<Rightarrow> host \<Rightarrow> jsstring \<Rightarrow> jsstring \<Rightarrow> jsstring \<Rightarrow> node \<Rightarrow> unit outcome" where
  "mainSteps fuel h name projectPath tempDir fs =
     andThen (lift (checkNodeVersion h 20) fs) (\<lambda>_ fs.
     andThen (checkGitInstalled h fs) (\<lambda>_ fs.
     andThen (createProjectDirectory h projectPath fs) (\<lambda>_ fs.
     andThen (cloneBoilerplate h tempDir fs) (\<lambda>boilerplateSrc fs.
     andThen (copyDir fuel h boilerplateSrc projectPath fs) (\<lambda>_ fs.
     andThen (cleanupTemp h tempDir fs) (\<lambda>_ fs.
     andThen (updatePackageJson h projectPath name fs) (\<lambda>_ fs.
     andThen (updateServerlessYml h projectPath name fs) (\<lambda>_ fs.
     spawn h (ExecShell (js ''npm install --silent'') (Some projectPath)) fs))))))))"

definition tempDirOf :: "host \<Rightarrow> jsstring" where
  "tempDirOf h = path_join [os_tmpdir h, js ''create-stb-'' @ decimal (Date_now h)]"

definition main :: "nat \<Rightarrow> host \<Rightarrow> jsstring list \<Rightarrow> node \<Rightarrow> status outcome" where
  "main fuel h argv fs =
     (if length argv \<le> 2 \<or> argv ! 2 = [] then Returns (Exited 1) fs
      else
        (let name = argv ! 2;
             projectPath = path_resolve (process_cwd h) [process_cwd h, name];
             tempDir = tempDirOf h
         in case mainSteps fuel h name projectPath tempDir fs of
              Returns _ fs' \<Rightarrow> Returns Completed fs'
            | Throws error fs' \<Rightarrow>
                andThen (cleanupTemp h tempDir fs') (\<lambda>_ fs''. Throws error fs'')
            | OutOfFuel \<Rightarrow> OutOfFuel))"

section \<open>A sample host\<close>

text \<open>A host running Node 20.11.0 in \<open>/w\<close> that refuses nothing, whose subprocesses
  succeed without touching the file system.\<close>

definition sampleHost :: host where
  "sampleHost =
     \<lparr> version_major = 20, version_minor = 11, version_patch = 0,
       process_cwd = js ''/w'', os_tmpdir = js ''/tmp'', Date_now = 17,
       refuses = (\<lambda>_. False),
       spawn = (\<lambda>_ fs. Returns () fs),
       JSON_parse = (\<lambda>_. None), JSON_stringify = (\<lambda>_ _. []) \<rparr>"

section \<open>Well-formed trees\<close>

text \<open>In a file system the names of a directory's entries are proper segments and
  pairwise different. \<open>depth\<close> is the nesting depth of a tree.\<close>

fun wellFormed :: "node \<Rightarrow> bool" where
  "wellFormed (File _) = True"
| "wellFormed (Dir es) =
     (distinct (map fst es) \<and> (\<forall>e \<in> set es. properSegment (fst e) \<and> wellFormed (snd e)))"

fun depth :: "node \<Rightarrow> nat" where
  "depth (File _) = 0"
| "depth (Dir es) = Suc (foldr (\<lambda>e d. max (depth (snd e)) d) es 0)"

section \<open>A sample file system\<close>

definition quoted :: "jsstring \<Rightarrow> jsstring" where
  "quoted s = [dquote] @ s @ [dquote]"

definition samplePackageText :: jsstring where
  "samplePackageText =
     js ''{'' @ quoted (js ''name'') @ js '': '' @ quoted (js ''old'') @ js '', '' @
     quoted (js ''version'') @ js '': '' @ quoted (js ''1.0.0'') @ js ''}''"

definition sampleYml :: jsstring where
  "sampleYml =
     js ''service: starter-name'' @ [10] @ js ''provider:'' @ [10] @ js ''  name: aws'' @ [10]"

definition sampleFs :: node where
  "sampleFs =
     Dir [(js ''tmp'', Dir [(js ''work'', Dir [(js ''test.txt'', File (js ''test''))])]),
          (js ''w'',
             Dir [(js ''template'',
                     Dir [(js ''file.txt'', File (js ''hello world'')),
                          (js ''.dotfile'', File (js ''dotfile'')),
                          (js ''sub'', Dir [(js ''nested.txt'', File (js ''nested''))])]),
                  (js ''empty'', Dir []),
                  (js ''notes.txt'', File (js ''x'')),
                  (js ''project'',
                     Dir [(js ''package.json'', File samplePackageText),
                          (js ''serverless.yml'', File sampleYml)])])]"

text \<open>A host whose JSON reader and printer are given on the two documents of the
  example: the descriptor of the sample project and its rewritten form.\<close>

definition samplePackage :: json where
  "samplePackage =
     JObject [(js ''name'', JString (js ''old'')), (js ''version'', JString (js ''1.0.0''))]"

definition updatedPackage :: json where
  "updatedPackage =
     JObject [(js ''name'', JString (js ''new-name'')), (js ''version'', JString (js ''1.0.0'')),
              (js ''description'', JString (js ''new-name app description''))]"

definition updatedPackageText :: jsstring where
  "updatedPackageText =
     js ''{'' @ [10] @
     js ''  '' @ quoted (js ''name'') @ js '': '' @ quoted (js ''new-name'') @ js '','' @ [10] @
     js ''  '' @ quoted (js ''version'') @ js '': '' @ quoted (js ''1.0.0'') @ js '','' @ [10] @
     js ''  '' @ quoted (js ''description'') @ js '': '' @
       quoted (js ''new-name app description'') @ [10] @
     js ''}''"

definition jsonHost :: host where
  "jsonHost =
     sampleHost
       \<lparr> JSON_parse :=
           (\<lambda>s. if s = samplePackageText then Some samplePackage
                else if s = updatedPackageText then Some updatedPackage
                else None),
         JSON_stringify :=
           (\<lambda>v indent. if v = updatedPackage \<and> indent = 2 then updatedPackageText else []) \<rparr>"

section \<open>A descriptor with a number beyond the doubles\<close>

text \<open>
  The descriptor \<open>{"name": "old", "limit": 1e999}\<close>. \<open>JSON.parse\<close> reads \<open>1e999\<close> as
  the double nearest to it, which is \<open>Infinity\<close>; \<open>JSON.stringify\<close> prints a number
  that is not finite as \<open>null\<close>; and \<open>JSON.parse\<close> reads \<open>null\<close> as \<open>null\<close>. The host
  of the example has the reader and the printer of Node on the three documents met.
\<close>

definition overflowPackageText :: jsstring where
  "overflowPackageText =
     js ''{'' @ quoted (js ''name'') @ js '': '' @ quoted (js ''old'') @ js '', '' @
     quoted (js ''limit'') @ js '': 1e999}''"

definition overflowPackage :: json where
  "overflowPackage =
     JObject [(js ''name'', JString (js ''old'')), (js ''limit'', JNumber PlusInfinity)]"

definition overflowRewritten :: json where
  "overflowRewritten =
     JObject [(js ''name'', JString (js ''new-name'')), (js ''limit'', JNumber PlusInfinity),
              (js ''description'', JString (js ''new-name app description''))]"

definition overflowRewrittenText :: jsstring where
  "overflowRewrittenText =
     js ''{'' @ [10] @
     js ''  '' @ quoted (js ''name'') @ js '': '' @ quoted (js ''new-name'') @ js '','' @ [10] @
     js ''  '' @ quoted (js ''limit'') @ js '': null,'' @ [10] @
     js ''  '' @ quoted (js ''description'') @ js '': '' @
       quoted (js ''new-name app description'') @ [10] @
     js ''}''"

definition overflowReread :: json where
  "overflowReread =
     JObject [(js ''name'', JString (js ''new-name'')), (js ''limit'', JNull),
              (js ''description'', JString (js ''new-name app description''))]"

definition overflowFs :: node where
  "overflowFs =
     Dir [(js ''w'', Dir [(js ''project'', Dir [(js ''package.json'', File overflowPackageText)])])]"

definition overflowHost :: host where
  "overflowHost =
     sampleHost
       \<lparr> JSON_parse :=
           (\<lambda>s. if s = overflowPackageText then Some overflowPackage
                else if s = overflowRewrittenText then Some overflowReread
                else None),
         JSON_stringify :=
           (\<lambda>v indent. if v = overflowRewritten \<and> indent = 2 then overflowRewrittenText else []) \<rparr>"

section \<open>The two git invocations and sample hosts for them\<close>

text \<open>The subprocess calls of \<open>cloneBoilerplate\<close>, as \<open>execFileSync\<close> receives them, and
  the path of an entry \<open>name\<close> of the directory \<open>dir\<close>. \<open>offlineHost\<close> is a host on
  which every subprocess fails.\<close>

definition gitClone :: "jsstring \<Rightarrow> invocation" where
  "gitClone dest =
     ExecFile (js ''git'')
       [js ''clone'', js ''--depth'', js ''1'', js ''--filter=blob:none'', js ''--sparse'',
        js ''https://github.com/SamNewhouse/create-stb.git'', dest] None"

definition gitSparseCheckout :: "jsstring \<Rightarrow> invocation" where
  "gitSparseCheckout dir =
     ExecFile (js ''git'') [js ''sparse-checkout'', js ''set'', js ''serverless''] (Some dir)"

definition childOf :: "jsstring \<Rightarrow> jsstring \<Rightarrow> jsstring" where
  "childOf dir name = (if dir = js ''/'' then dir @ name else dir @ slash # name)"

definition offlineHost :: host where
  "offlineHost =
     sampleHost \<lparr> spawn := (\<lambda>_ fs. Throws (ChildProcessError (js ''Command failed: git'')) fs) \<rparr>"

section \<open>Directory entries, and the template of the sample\<close>

text \<open>What \<open>readdirSync\<close> reports of a directory's entries; the tree that the sample
  file system holds at \<open>/w/template\<close>.\<close>

definition dirents :: "(jsstring \<times> node) list \<Rightarrow> (jsstring \<times> bool) list" where
  "dirents es = map (\<lambda>(name, n). (name, isDirectory n)) es"

definition sampleTemplate :: "(jsstring \<times> node) list" where
  "sampleTemplate =
     [(js ''file.txt'', File (js ''hello world'')),
      (js ''.dotfile'', File (js ''dotfile'')),
      (js ''sub'', Dir [(js ''nested.txt'', File (js ''nested''))])]"

section \<open>Hosts on which the clone fails half way\<close>

text \<open>
  On \<open>flakyHost\<close> \<open>git clone\<close> creates the clone destination and
  \<open>git sparse-checkout\<close> fails. \<open>stuckHost\<close> moreover refuses to remove the temporary
  workspace. \<open>sampleFsAfterClone\<close> is the sample file system with the project directory
  \<open>/w/app\<close> and the clone destination in it.
\<close>

definition cloneThenFail :: "invocation \<Rightarrow> node \<Rightarrow> unit outcome" where
  "cloneThenFail call fs =
     (case call of
        ExecFile _ args _ \<Rightarrow>
          if take 1 args = [js ''clone''] then
            (case mkdirp [js ''tmp'', js ''create-stb-17'', js ''create-stb-temp''] fs of
               Inl _ \<Rightarrow> Throws (ChildProcessError (js ''Command failed: git clone'')) fs
             | Inr fs' \<Rightarrow> Returns () fs')
          else if take 1 args = [js ''sparse-checkout''] then
            Throws (ChildProcessError (js ''Command failed: git sparse-checkout'')) fs
          else Returns () fs
      | ExecShell _ _ \<Rightarrow> Returns () fs)"

definition flakyHost :: host where
  "flakyHost = sampleHost \<lparr> spawn := cloneThenFail \<rparr>"

definition stuckHost :: host where
  "stuckHost = flakyHost \<lparr> refuses := (\<lambda>op. op = Rm [js ''tmp'', js ''create-stb-17'']) \<rparr>"

definition sampleFsAfterClone :: node where
  "sampleFsAfterClone =
     Dir [(js ''tmp'',
             Dir [(js ''work'', Dir [(js ''test.txt'', File (js ''test''))]),
                  (js ''create-stb-17'', Dir [(js ''create-stb-temp'', Dir [])])]),
          (js ''w'',
             Dir [(js ''template'',
                     Dir [(js ''file.txt'', File (js ''hello world'')),
                          (js ''.dotfile'', File (js ''dotfile'')),
                          (js ''sub'', Dir [(js ''nested.txt'', File (js ''nested''))])]),
                  (js ''empty'', Dir []),
                  (js ''notes.txt'', File (js ''x'')),
                  (js ''project'',
                     Dir [(js ''package.json'', File samplePackageText),
                          (js ''serverless.yml'', File sampleYml)]),
                  (js ''app'', Dir [])])]"

section \<open>The runtime version check\<close>

lemma split_on_nonempty: "split_on sep s \<noteq> []"
  by (induction s) (auto split: list.splits)

lemma split_on_append_sep:
  "sep \<notin> set xs \<Longrightarrow> split_on sep (xs @ sep # ys) = xs # split_on sep ys"
  by (induction xs) (auto split: list.splits)

lemma decimal_nonempty: "decimal n \<noteq> []"
  by (subst decimal.simps) simp

lemma decimal_digits: "list_all isDigit (decimal n)"
proof (induction n rule: decimal.induct)
  case (1 n)
  show ?case
  proof (cases "n < 10")
    case True
    then show ?thesis by (subst decimal.simps) (simp add: isDigit_def)
  next
    case False
    have "n mod 10 < 10" by simp
    then have "isDigit (48 + n mod 10)" unfolding isDigit_def by linarith
    with False 1 show ?thesis by (subst decimal.simps) simp
  qed
qed

lemma decimal_value: "foldl (\<lambda>a c. 10 * a + (c - 48)) 0 (decimal n) = n"
proof (induction n rule: decimal.induct)
  case (1 n)
  show ?case
  proof (cases "n < 10")
    case True
    then show ?thesis by (subst decimal.simps) simp
  next
    case False
    with 1 show ?thesis by (subst decimal.simps) simp
  qed
qed

lemma js_Number_decimal: "js_Number (decimal n) = Some n"
  by (simp add: js_Number_def decimal_nonempty decimal_digits decimal_value)

lemma decimal_no_dot: "of_char CHR ''.'' \<notin> set (decimal n)"
proof
  assume "of_char CHR ''.'' \<in> set (decimal n)"
  with decimal_digits [of n] have "isDigit (of_char CHR ''.'')"
    by (simp add: list_all_iff)
  then show False by (simp add: isDigit_def)
qed

lemma major_of_version:
  "split_on (of_char CHR ''.'') (remove1 (of_char CHR ''v'') (process_version h)) =
     decimal (version_major h) #
       split_on (of_char CHR ''.'') (decimal (version_minor h) @ js ''.'' @ decimal (version_patch h))"
  using split_on_append_sep [OF decimal_no_dot]
  by (simp add: process_version_def js_def)

lemma checkNodeVersion_eq:
  "checkNodeVersion h minMajor =
     (if int (version_major h) < minMajor
      then Inl (Error (js ''Node.js v'' @ show_int minMajor @ js ''+ required''))
      else Inr ())"
  unfolding checkNodeVersion_def major_of_version
  by (simp add: js_Number_decimal)

text \<open>
  Claim C8. \<open>checkNodeVersion minMajor\<close> throws exactly when the major version of the
  host runtime is below \<open>minMajor\<close>; the message then contains \<open>required\<close> and the
  decimal text of \<open>minMajor\<close>; with a major version of \<open>minMajor\<close> or above it returns.
\<close>

theorem checkNodeVersion_fails_iff_below:
  "(checkNodeVersion h minMajor \<noteq> Inr () \<longleftrightarrow> int (version_major h) < minMajor) \<and>
   (int (version_major h) < minMajor \<longrightarrow>
      (\<exists>msg. checkNodeVersion h minMajor = Inl (Error msg) \<and>
             sublist (js ''required'') msg \<and> sublist (show_int minMajor) msg)) \<and>
   (minMajor \<le> int (version_major h) \<longrightarrow> checkNodeVersion h minMajor = Inr ())"
proof -
  have "sublist (js ''required'') (js ''Node.js v'' @ show_int minMajor @ js ''+ required'')"
    by (simp add: js_def sublist_def) (metis append.assoc append_Cons append_Nil)
  moreover have "sublist (show_int minMajor) (js ''Node.js v'' @ show_int minMajor @ js ''+ required'')"
    by (metis sublist_appendI)
  ultimately show ?thesis by (simp add: checkNodeVersion_eq)
qed

theorem checkNodeVersion_fails_iff_below_witness:
  "int (version_major sampleHost) < 99 \<and>
   checkNodeVersion sampleHost 99 = Inl (Error (js ''Node.js v99+ required'')) \<and>
   20 \<le> int (version_major sampleHost) \<and>
   checkNodeVersion sampleHost 20 = Inr ()"
proof -
  have below: "int (version_major sampleHost) < 99"
    by (simp add: sampleHost_def)
  have above: "20 \<le> int (version_major sampleHost)"
    by (simp add: sampleHost_def)
  from checkNodeVersion_fails_iff_below [of sampleHost 99] below
  have "checkNodeVersion sampleHost 99 \<noteq> Inr ()" by blast
  moreover have "checkNodeVersion sampleHost 99 = Inl (Error (js ''Node.js v99+ required'')) \<or>
      checkNodeVersion sampleHost 99 = Inr ()"
    by (simp add: checkNodeVersion_def process_version_def sampleHost_def js_def js_Number_def
        isDigit_def show_int_def decimal.simps)
  moreover from checkNodeVersion_fails_iff_below [of sampleHost 20] above
  have "checkNodeVersion sampleHost 20 = Inr ()" by blast
  ultimately show ?thesis using below above by blast
qed

section \<open>Paths and the sanitizer\<close>

lemma split_on_no_sep: "seg \<in> set (split_on sep s) \<Longrightarrow> sep \<notin> set seg"
  by (induction s arbitrary: seg) (auto split: list.splits if_splits)

lemma split_on_no_sep_id: "sep \<notin> set xs \<Longrightarrow> split_on sep xs = [xs]"
  by (induction xs) (auto split: list.splits)

lemma split_on_join:
  "segs \<noteq> [] \<Longrightarrow> \<forall>seg \<in> set segs. sep \<notin> set seg \<Longrightarrow> split_on sep (join_with sep segs) = segs"
proof (induction sep segs rule: join_with.induct)
  case (1 sep)
  then show ?case by simp
next
  case (2 sep x)
  then show ?case by (simp add: split_on_no_sep_id)
next
  case (3 sep x y r)
  then show ?case by (simp add: split_on_append_sep)
qed

lemma normStep_proper: "properSegment seg \<Longrightarrow> normStep a res seg = res @ [seg]"
  by (simp add: normStep_def properSegment_def)

lemma foldl_normStep_proper:
  "\<forall>seg \<in> set segs. properSegment seg \<Longrightarrow> foldl (normStep a) res segs = res @ segs"
  by (induction segs arbitrary: res) (simp_all add: normStep_proper)

lemma normSegments_proper:
  "\<forall>seg \<in> set segs. properSegment seg \<Longrightarrow> normSegments a segs = segs"
  by (simp add: normSegments_def foldl_normStep_proper)

lemma normStep_False_keeps:
  assumes "\<forall>s \<in> set res. properSegment s" and "slash \<notin> set seg"
  shows "\<forall>s \<in> set (normStep False res seg). properSegment s"
  using assms by (auto simp: normStep_def properSegment_def dest: in_set_butlastD)

lemma foldl_normStep_False_keeps:
  "\<forall>s \<in> set res. properSegment s \<Longrightarrow> \<forall>seg \<in> set segs. slash \<notin> set seg \<Longrightarrow>
   \<forall>s \<in> set (foldl (normStep False) res segs). properSegment s"
proof (induction segs arbitrary: res)
  case Nil
  then show ?case by simp
next
  case (Cons seg segs)
  have "\<forall>s \<in> set (normStep False res seg). properSegment s"
    using Cons.prems by (intro normStep_False_keeps) auto
  with Cons show ?case by simp
qed

lemma normSegments_False_proper:
  "\<forall>seg \<in> set segs. slash \<notin> set seg \<Longrightarrow> \<forall>s \<in> set (normSegments False segs). properSegment s"
  unfolding normSegments_def by (rule foldl_normStep_False_keeps) auto

lemma normSegments_split_proper:
  "\<forall>s \<in> set (normSegments False (split_on slash p)). properSegment s"
  by (rule normSegments_False_proper) (auto dest: split_on_no_sep)

lemma join_with_last:
  "segs \<noteq> [] \<Longrightarrow> last segs \<noteq> [] \<Longrightarrow> join_with sep segs \<noteq> [] \<and> last (join_with sep segs) = last (last segs)"
  by (induction sep segs rule: join_with.induct) auto

lemma normalizeString_absPath:
  assumes "\<forall>seg \<in> set p. properSegment seg"
  shows "normalizeString (absPath p) a = join_with slash p"
proof (cases "p = []")
  case True
  then show ?thesis
    by (simp add: normalizeString_def absPath_def normSegments_def normStep_def)
next
  case False
  have "split_on slash (join_with slash p) = p"
    using assms False by (intro split_on_join) (auto simp: properSegment_def)
  then have "split_on slash (absPath p) = [] # p"
    by (simp add: absPath_def)
  moreover have "normSegments a ([] # p) = normSegments a p"
    by (simp add: normSegments_def normStep_def)
  ultimately show ?thesis
    using assms by (simp add: normalizeString_def normSegments_proper)
qed

lemma path_normalize_absPath:
  assumes "\<forall>seg \<in> set p. properSegment seg"
  shows "path_normalize (absPath p) = absPath p"
proof (cases "p = []")
  case True
  then show ?thesis
    using normalizeString_absPath [OF assms, of False]
    by (simp add: path_normalize_def absPath_def js_def slash_def)
next
  case False
  with assms have l: "last p \<noteq> []" "slash \<notin> set (last p)"
    by (auto simp: properSegment_def)
  from join_with_last [OF False l(1), of slash]
  have j: "join_with slash p \<noteq> []" "last (join_with slash p) = last (last p)" by auto
  with l have "last (join_with slash p) \<noteq> slash"
    by (metis last_in_set)
  with j show ?thesis
    using normalizeString_absPath [OF assms, of False]
    by (simp add: path_normalize_def absPath_def Let_def)
qed

lemma resolveArgs_single:
  "t \<noteq> [] \<Longrightarrow> hd cwd = slash \<Longrightarrow> cwd \<noteq> [] \<Longrightarrow>
   \<exists>r. resolveArgs [t, cwd] [] = (r, True)"
  by (cases t; cases cwd) auto

lemma path_resolve_abs:
  assumes "t \<noteq> []" "cwd \<noteq> []" "hd cwd = slash"
  shows "\<exists>p. (\<forall>seg \<in> set p. properSegment seg) \<and> path_resolve cwd [t] = absPath p"
proof -
  from resolveArgs_single [OF assms(1,3,2)] obtain r where r: "resolveArgs [t, cwd] [] = (r, True)"
    by blast
  then have "path_resolve cwd [t] = absPath (normSegments False (split_on slash r))"
    by (simp add: path_resolve_def absPath_def normalizeString_def)
  then show ?thesis using normSegments_split_proper by blast
qed

lemma dropWhile_keeps: "c \<in> set xs \<Longrightarrow> \<not> P c \<Longrightarrow> c \<in> set (dropWhile P xs)"
  by (induction xs) auto

lemma trim_keeps: "c \<in> set s \<Longrightarrow> \<not> isWhiteSpace c \<Longrightarrow> c \<in> set (trim s)"
  by (simp add: trim_def dropWhile_keeps)

lemma trim_subset: "set (trim s) \<subseteq> set s"
proof -
  have "set (trim s) \<subseteq> set (dropWhile isWhiteSpace s)"
    unfolding trim_def using set_dropWhileD by fastforce
  then show ?thesis using set_dropWhileD by fastforce
qed

lemma dangerous_not_space: "c \<in> set dangerous \<Longrightarrow> \<not> isWhiteSpace c"
  by (auto simp: dangerous_def js_def isWhiteSpace_def)

lemma dangerous_trim:
  "(\<exists>c \<in> set (trim s). c \<in> set dangerous) \<longleftrightarrow> (\<exists>c \<in> set s. c \<in> set dangerous)"
  using trim_keeps dangerous_not_space trim_subset by blast

lemma sanitizePath_cases:
  "sanitizePath cwd s =
     (if trim s = [] then Inl (Error (js ''Path must be a non-empty string''))
      else if startsWith (trim s) (js ''-'') \<or> (\<exists>c \<in> set (trim s). c \<in> set dangerous)
      then Inl (Error (js ''Invalid path: contains dangerous characters''))
      else Inr (path_normalize (path_resolve cwd [trim s])))"
  by (simp add: sanitizePath_def Let_def)

lemma startsWith_slash: "startsWith p (js ''/'') \<longleftrightarrow> p \<noteq> [] \<and> hd p = slash"
  by (cases p) (auto simp: startsWith_def js_def slash_def)

lemma sanitizePath_absolute:
  assumes "startsWith cwd (js ''/'')" and "sanitizePath cwd s = Inr p"
  shows "\<exists>q. (\<forall>seg \<in> set q. properSegment seg) \<and> p = absPath q"
proof -
  from assms(2) have t: "trim s \<noteq> []" and p: "p = path_normalize (path_resolve cwd [trim s])"
    by (auto simp: sanitizePath_cases split: if_splits)
  from assms(1) have "cwd \<noteq> []" "hd cwd = slash" by (simp_all add: startsWith_slash)
  from path_resolve_abs [OF t this] obtain q
    where q: "\<forall>seg \<in> set q. properSegment seg" "path_resolve cwd [trim s] = absPath q" by blast
  with p have "p = absPath q" by (simp add: path_normalize_absPath)
  with q show ?thesis by blast
qed

text \<open>
  Claim C1, as the code has it. \<open>sanitizePath\<close> throws exactly when the trimmed input is
  empty, begins with a hyphen or contains one of the guarded characters (so whenever the
  input itself contains one); otherwise it returns the normalized resolution of the
  trimmed input against the working directory, which is an absolute path that
  \<open>path.normalize\<close> leaves as it is.
\<close>

theorem sanitizePath_rejects_or_resolves_trimmed:
  "(isl (sanitizePath cwd s) \<longleftrightarrow>
      trim s = [] \<or> startsWith (trim s) (js ''-'') \<or> (\<exists>c \<in> set (trim s). c \<in> set dangerous)) \<and>
   ((\<exists>c \<in> set s. c \<in> set dangerous) \<longrightarrow> isl (sanitizePath cwd s)) \<and>
   (\<not> isl (sanitizePath cwd s) \<longrightarrow>
      sanitizePath cwd s = Inr (path_normalize (path_resolve cwd [trim s]))) \<and>
   (startsWith cwd (js ''/'') \<longrightarrow>
      (\<forall>p. sanitizePath cwd s = Inr p \<longrightarrow> startsWith p (js ''/'') \<and> path_normalize p = p))"
proof -
  have a: "isl (sanitizePath cwd s) \<longleftrightarrow>
      trim s = [] \<or> startsWith (trim s) (js ''-'') \<or> (\<exists>c \<in> set (trim s). c \<in> set dangerous)"
    by (simp add: sanitizePath_cases)
  have b: "(\<exists>c \<in> set s. c \<in> set dangerous) \<longrightarrow> isl (sanitizePath cwd s)"
    using a dangerous_trim [of s] by blast
  have c: "\<not> isl (sanitizePath cwd s) \<longrightarrow>
      sanitizePath cwd s = Inr (path_normalize (path_resolve cwd [trim s]))"
    by (simp add: sanitizePath_cases)
  have d: "startsWith cwd (js ''/'') \<longrightarrow>
      (\<forall>p. sanitizePath cwd s = Inr p \<longrightarrow> startsWith p (js ''/'') \<and> path_normalize p = p)"
  proof (intro impI allI)
    fix p assume "startsWith cwd (js ''/'')" "sanitizePath cwd s = Inr p"
    from sanitizePath_absolute [OF this] obtain q
      where "\<forall>seg \<in> set q. properSegment seg" "p = absPath q" by blast
    then show "startsWith p (js ''/'') \<and> path_normalize p = p"
      by (simp add: path_normalize_absPath) (simp add: absPath_def startsWith_slash)
  qed
  from a b c d show ?thesis by blast
qed

lemmas path_eval =
  js_def slash_def isWhiteSpace_def trim_def startsWith_def normStep_def normSegments_def
  normalizeString_def path_resolve_def path_normalize_def path_join_def dangerous_def

theorem sanitizePath_rejects_or_resolves_trimmed_witness:
  "\<not> isl (sanitizePath (js ''/w'') (js '' a/../b '')) \<and>
   startsWith (js ''/w'') (js ''/'') \<and>
   sanitizePath (js ''/w'') (js '' a/../b '') = Inr (js ''/w/b'') \<and>
   path_normalize (js ''/w/b'') = js ''/w/b'' \<and>
   isl (sanitizePath (js ''/w'') (js ''a;b''))"
proof -
  have ok: "\<not> isl (sanitizePath (js ''/w'') (js '' a/../b ''))"
    by (simp add: path_eval sanitizePath_def)
  have abs: "startsWith (js ''/w'') (js ''/'')"
    by (simp add: path_eval sanitizePath_def)
  have r: "path_normalize (path_resolve (js ''/w'') [trim (js '' a/../b '')]) = js ''/w/b''"
    by (simp add: path_eval sanitizePath_def)
  have bad: "\<exists>c \<in> set (js ''a;b''). c \<in> set dangerous"
    by (simp add: path_eval sanitizePath_def)
  note t = sanitizePath_rejects_or_resolves_trimmed [of "js ''/w''" "js '' a/../b ''"]
  from t ok r have v: "sanitizePath (js ''/w'') (js '' a/../b '') = Inr (js ''/w/b'')" by simp
  with t abs have "path_normalize (js ''/w/b'') = js ''/w/b''" by blast
  moreover from sanitizePath_rejects_or_resolves_trimmed [of "js ''/w''" "js ''a;b''"] bad
  have "isl (sanitizePath (js ''/w'') (js ''a;b''))" by blast
  ultimately show ?thesis using ok abs v by blast
qed

text \<open>
  The input \<open>" a"\<close> passes the guard, and the path returned is the resolution of
  \<open>"a"\<close>, not that of the input: \<open>/w/a\<close> where resolving the input gives \<open>/w/ a\<close>.
\<close>

theorem sanitizePath_untrimmed_counterexample:
  "trim (js '' a'') \<noteq> [] \<and> \<not> startsWith (trim (js '' a'')) (js ''-'') \<and>
   \<not> (\<exists>c \<in> set (trim (js '' a'')). c \<in> set dangerous) \<and>
   sanitizePath (js ''/w'') (js '' a'') = Inr (js ''/w/a'') \<and>
   path_normalize (path_resolve (js ''/w'') [js '' a'']) = js ''/w/ a'' \<and>
   sanitizePath (js ''/w'') (js '' a'') \<noteq> Inr (path_normalize (path_resolve (js ''/w'') [js '' a'']))"
  by (simp add: path_eval sanitizePath_def)

section \<open>The file tree\<close>

lemma depth_child: "(x, c) \<in> set es \<Longrightarrow> depth c < depth (Dir es)"
  by (induction es) auto

subsection \<open>lookup\<close>

lemma lookup_append:
  "lookup t (p @ q) = (case lookup t p of None \<Rightarrow> None | Some n \<Rightarrow> lookup n q)"
  by (induction p arbitrary: t) (auto split: node.splits option.splits)

lemma lookup_File: "lookup (File c) p = (if p = [] then Some (File c) else None)"
  by (cases p) auto

lemma lookup_parent:
  "lookup t (p @ [x]) = Some n \<Longrightarrow> \<exists>es. lookup t p = Some (Dir es) \<and> map_of es x = Some n"
  by (auto simp: lookup_append split: option.splits node.splits)

lemma lookup_prefix_dir:
  assumes "lookup t p = Some n" and "strict_prefix q p"
  shows "\<exists>es. lookup t q = Some (Dir es)"
proof -
  from assms(2) obtain r where r: "p = q @ r" "r \<noteq> []"
    by (auto simp: strict_prefix_def prefix_def)
  then obtain x r' where "r = x # r'" by (cases r) auto
  with assms(1) r show ?thesis
    by (auto simp: lookup_append split: option.splits node.splits)
qed

subsection \<open>update of an association list\<close>

lemma update_absent: "map_of es x = None \<Longrightarrow> AList.update x v es = es @ [(x, v)]"
  by (induction es) (auto split: if_splits)

lemma update_snoc_absent:
  "map_of es x = None \<Longrightarrow> AList.update x v (es @ [(x, w)]) = es @ [(x, v)]"
  by (induction es) (auto split: if_splits)

subsection \<open>store\<close>

lemma store_Dir:
  "store (x # p) v (Dir es) =
     (case map_of es x of
        None \<Rightarrow> (if p = [] then Dir (AList.update x v es) else Dir es)
      | Some c \<Rightarrow> Dir (AList.update x (store p v c) es))"
  by (simp add: update_absent split: option.splits)

lemma lookup_store_parent:
  "lookup t q = Some (Dir es) \<Longrightarrow>
   lookup (store (q @ [x]) v t) q = Some (Dir (AList.update x v es))"
proof (induction q arbitrary: t)
  case Nil
  then show ?case by (auto simp: update_absent split: option.splits)
next
  case (Cons y q)
  then show ?case
    by (auto simp: update_conv' split: node.splits option.splits)
qed

lemma lookup_store_frame:
  "\<not> prefix q p \<Longrightarrow> \<not> prefix p q \<Longrightarrow> lookup (store q v t) p = lookup t p"
proof (induction q arbitrary: t p)
  case Nil
  then show ?case by simp
next
  case (Cons x q)
  then obtain y p' where p: "p = y # p'" by (cases p) auto
  show ?case
  proof (cases t)
    case (File c)
    then show ?thesis by simp
  next
    case (Dir es)
    show ?thesis
    proof (cases "x = y")
      case True
      with Cons.prems p have np: "\<not> prefix q p'" "\<not> prefix p' q" by auto
      then have "q \<noteq> []" by auto
      with Dir True p Cons.IH [OF np] show ?thesis
        by (auto simp: update_conv' split: option.splits)
    next
      case False
      with Dir p show ?thesis
        by (auto simp: update_conv' split: option.splits)
    qed
  qed
qed

lemma store_store_under: "store p v (store (p @ r) w t) = store p v t"
proof (induction p arbitrary: t)
  case Nil
  then show ?case by simp
next
  case (Cons x p)
  show ?case
  proof (cases t)
    case (File c)
    then show ?thesis by simp
  next
    case (Dir es)
    show ?thesis
    proof (cases "map_of es x")
      case None
      with Dir show ?thesis
        by (auto simp: update_snoc_absent map_add_def)
    next
      case (Some c)
      with Dir Cons.IH [of c] show ?thesis
        by (simp add: update_conv')
    qed
  qed
qed

lemma store_same: "lookup t p = Some v \<Longrightarrow> store p v t = t"
proof (induction p arbitrary: t)
  case Nil
  then show ?case by simp
next
  case (Cons x p)
  then show ?case
    by (auto simp: update_triv split: node.splits option.splits)
qed

subsection \<open>mkdirp\<close>

lemma mkdirp_existing: "lookup t p = Some (Dir es) \<Longrightarrow> mkdirp p t = Inr t"
proof (induction p arbitrary: t)
  case Nil
  then show ?case by simp
next
  case (Cons x p)
  then show ?case
    by (auto simp: update_triv split: node.splits option.splits)
qed

lemma mkdirp_one:
  "lookup t q = Some (Dir es) \<Longrightarrow> map_of es x = None \<Longrightarrow>
   mkdirp (q @ [x]) t = Inr (store (q @ [x]) (Dir []) t)"
proof (induction q arbitrary: t)
  case Nil
  then show ?case by auto
next
  case (Cons y q)
  then show ?case
    by (auto split: node.splits option.splits)
qed

lemma mkdirp_frame:
  "mkdirp p t = Inr t' \<Longrightarrow> \<not> prefix q p \<Longrightarrow> lookup t' q = lookup t q"
proof (induction p arbitrary: t t' q)
  case Nil
  then show ?case by (auto split: node.splits)
next
  case (Cons x p)
  from Cons.prems(2) obtain y q' where q: "q = y # q'" by (cases q) auto
  from Cons.prems(1) obtain es where t: "t = Dir es" by (cases t) auto
  show ?case
  proof (cases "map_of es x")
    case None
    with Cons.prems(1) t obtain c where c: "mkdirp p (Dir []) = Inr c" "t' = Dir (es @ [(x, c)])"
      by (auto split: sum.splits)
    show ?thesis
    proof (cases "x = y")
      case True
      with Cons.prems(2) q have np: "\<not> prefix q' p" by simp
      then have "q' \<noteq> []" by auto
      then obtain z q'' where "q' = z # q''" by (cases q') auto
      with Cons.IH [OF c(1) np] have "lookup c q' = None" by simp
      with None True t c q show ?thesis by (simp add: map_add_def)
    next
      case False
      with None t c q show ?thesis by (auto simp: map_add_def split: option.splits)
    qed
  next
    case (Some c)
    with Cons.prems(1) t obtain c' where c: "mkdirp p c = Inr c'" "t' = Dir (AList.update x c' es)"
      by (auto split: sum.splits)
    show ?thesis
    proof (cases "x = y")
      case True
      with Cons.prems(2) q have np: "\<not> prefix q' p" by simp
      from Cons.IH [OF c(1) np] Some True t c q show ?thesis
        by (simp add: update_conv')
    next
      case False
      with Some t c q show ?thesis by (simp add: update_conv')
    qed
  qed
qed


lemma mkdirp_fresh:
  "mkdirp p t = Inr t' \<Longrightarrow> lookup t p = None \<Longrightarrow> lookup t' p = Some (Dir [])"
proof (induction p arbitrary: t t')
  case Nil
  then show ?case by simp
next
  case (Cons x p)
  from Cons.prems(1) obtain es where t: "t = Dir es" by (cases t) auto
  show ?case
  proof (cases "map_of es x")
    case None
    with Cons.prems(1) t obtain c where c: "mkdirp p (Dir []) = Inr c" "t' = Dir (es @ [(x, c)])"
      by (auto split: sum.splits)
    have "lookup c p = Some (Dir [])"
    proof (cases p)
      case Nil
      with c show ?thesis by simp
    next
      case (Cons z p')
      then have "lookup (Dir []) p = None" by simp
      from Cons.IH [OF c(1) this] show ?thesis .
    qed
    with None c show ?thesis by (simp add: map_add_def)
  next
    case (Some c)
    with Cons.prems(1) t obtain c' where c: "mkdirp p c = Inr c'" "t' = Dir (AList.update x c' es)"
      by (auto split: sum.splits)
    from Cons.prems(2) t Some have "lookup c p = None" by simp
    from Cons.IH [OF c(1) this] c show ?thesis by (simp add: update_conv')
  qed
qed

lemma mkdirp_fails_iff:
  "(\<exists>e. mkdirp p t = Inl e) \<longleftrightarrow> (\<exists>q c. prefix q p \<and> lookup t q = Some (File c))"
proof (induction p arbitrary: t)
  case Nil
  then show ?case by (cases t) auto
next
  case (Cons x p)
  show ?case
  proof (cases t)
    case (File c)
    have "prefix [] (x # p) \<and> lookup t [] = Some (File c)" using File by simp
    then have "\<exists>q c. prefix q (x # p) \<and> lookup t q = Some (File c)" by blast
    with File show ?thesis by simp
  next
    case (Dir es)
    show ?thesis
    proof (cases "map_of es x")
      case None
      have a: "\<not> (\<exists>q c. prefix q p \<and> lookup (Dir []) q = Some (File c))"
      proof
        assume "\<exists>q c. prefix q p \<and> lookup (Dir []) q = Some (File c)"
        then obtain q c where "lookup (Dir []) q = Some (File c)" by blast
        then show False by (cases q) auto
      qed
      with Cons.IH [of "Dir []"] have ok: "\<not> (\<exists>e. mkdirp p (Dir []) = Inl e)" by simp
      have "\<not> (\<exists>q c. prefix q (x # p) \<and> lookup t q = Some (File c))"
      proof
        assume "\<exists>q c. prefix q (x # p) \<and> lookup t q = Some (File c)"
        then obtain q c where qc: "prefix q (x # p)" "lookup t q = Some (File c)" by blast
        with Dir None show False by (cases q) auto
      qed
      moreover from ok Dir None have "\<not> (\<exists>e. mkdirp (x # p) t = Inl e)"
        by (auto split: sum.splits)
      ultimately show ?thesis by blast
    next
      case (Some c)
      have "(\<exists>q c'. prefix q (x # p) \<and> lookup t q = Some (File c')) \<longleftrightarrow>
            (\<exists>q c'. prefix q p \<and> lookup c q = Some (File c'))"
      proof
        assume "\<exists>q c'. prefix q (x # p) \<and> lookup t q = Some (File c')"
        then obtain q c' where qc: "prefix q (x # p)" "lookup t q = Some (File c')" by blast
        with Dir obtain q' where "q = x # q'" by (cases q) auto
        with qc Dir Some show "\<exists>q c'. prefix q p \<and> lookup c q = Some (File c')" by auto
      next
        assume "\<exists>q c'. prefix q p \<and> lookup c q = Some (File c')"
        then obtain q c' where qc: "prefix q p" "lookup c q = Some (File c')" by blast
        with Dir Some have "prefix (x # q) (x # p) \<and> lookup t (x # q) = Some (File c')" by simp
        then show "\<exists>q c'. prefix q (x # p) \<and> lookup t q = Some (File c')" by blast
      qed
      moreover from Dir Some have "(\<exists>e. mkdirp (x # p) t = Inl e) \<longleftrightarrow> (\<exists>e. mkdirp p c = Inl e)"
        by (auto split: sum.splits)
      ultimately show ?thesis using Cons.IH [of c] by simp
    qed
  qed
qed

subsection \<open>remove\<close>

lemma lookup_remove_under: "p \<noteq> [] \<Longrightarrow> lookup (remove p t) (p @ r) = None"
proof (induction p arbitrary: t)
  case Nil
  then show ?case by simp
next
  case (Cons x p)
  show ?case
  proof (cases p)
    case Nil
    then show ?thesis by (auto simp: delete_conv' split: node.splits)
  next
    case (Cons y p')
    with Cons.IH show ?thesis
      by (auto simp: update_conv' split: node.splits option.splits)
  qed
qed

lemma lookup_remove_frame:
  "\<not> prefix q p \<Longrightarrow> \<not> prefix p q \<Longrightarrow> lookup (remove q t) p = lookup t p"
proof (induction q arbitrary: t p)
  case Nil
  then show ?case by simp
next
  case (Cons x q)
  then obtain y p' where p: "p = y # p'" by (cases p) auto
  show ?case
  proof (cases t)
    case (File c)
    then show ?thesis by simp
  next
    case (Dir es)
    show ?thesis
    proof (cases "x = y")
      case True
      with Cons.prems p have np: "\<not> prefix q p'" "\<not> prefix p' q" by auto
      then have "q \<noteq> []" by auto
      with Dir True p Cons.IH [OF np] show ?thesis
        by (auto simp: update_conv' split: option.splits)
    next
      case False
      with Dir p show ?thesis
        by (auto simp: update_conv' delete_conv' split: option.splits)
    qed
  qed
qed

section \<open>Cleanup\<close>

lemmas fs_eval =
  js_def slash_def normStep_def normSegments_def fs_path_def existsSync_def

lemma existsSync_iff:
  "existsSync h s fs \<longleftrightarrow> (\<exists>p n. fs_path h s = Some p \<and> lookup fs p = Some n)"
  by (auto simp: existsSync_def split: option.splits)

text \<open>
  Claim C7. On a path that does not exist \<open>cleanupTemp\<close> returns and changes nothing.
  On a path that exists, where the host carries the removal out (the path is not the
  root and the removal is not refused), it returns, the path and everything under it
  are gone, and every path beside it is as before.
\<close>

theorem cleanupTemp_removes_or_skips:
  "(\<not> existsSync h tempDir fs \<longrightarrow> cleanupTemp h tempDir fs = Returns () fs) \<and>
   (existsSync h tempDir fs \<longrightarrow>
      (\<exists>p. fs_path h tempDir = Some p \<and>
         (p \<noteq> [] \<and> \<not> refuses h (Rm p) \<longrightarrow>
            (\<exists>fs'. cleanupTemp h tempDir fs = Returns () fs' \<and>
                   \<not> existsSync h tempDir fs' \<and>
                   (\<forall>r. lookup fs' (p @ r) = None) \<and>
                   (\<forall>q. \<not> prefix p q \<and> \<not> prefix q p \<longrightarrow> lookup fs' q = lookup fs q)))))"
proof (intro conjI impI)
  assume "\<not> existsSync h tempDir fs"
  then show "cleanupTemp h tempDir fs = Returns () fs"
    by (simp add: cleanupTemp_def)
next
  assume ex: "existsSync h tempDir fs"
  then obtain p n where p: "fs_path h tempDir = Some p" "lookup fs p = Some n"
    by (auto simp: existsSync_iff)
  have "p \<noteq> [] \<and> \<not> refuses h (Rm p) \<longrightarrow>
      (\<exists>fs'. cleanupTemp h tempDir fs = Returns () fs' \<and> \<not> existsSync h tempDir fs' \<and>
             (\<forall>r. lookup fs' (p @ r) = None) \<and>
             (\<forall>q. \<not> prefix p q \<and> \<not> prefix q p \<longrightarrow> lookup fs' q = lookup fs q))"
  proof
    assume a: "p \<noteq> [] \<and> \<not> refuses h (Rm p)"
    with ex p have run: "cleanupTemp h tempDir fs = Returns () (remove p fs)"
      by (simp add: cleanupTemp_def rmSync_def)
    from a have under: "\<forall>r. lookup (remove p fs) (p @ r) = None"
      by (simp add: lookup_remove_under)
    then have "lookup (remove p fs) p = None"
      by (metis append_Nil2)
    with p have gone: "\<not> existsSync h tempDir (remove p fs)"
      by (simp add: existsSync_def)
    have "\<forall>q. \<not> prefix p q \<and> \<not> prefix q p \<longrightarrow> lookup (remove p fs) q = lookup fs q"
      by (simp add: lookup_remove_frame)
    with run under gone show "\<exists>fs'. cleanupTemp h tempDir fs = Returns () fs' \<and>
        \<not> existsSync h tempDir fs' \<and> (\<forall>r. lookup fs' (p @ r) = None) \<and>
        (\<forall>q. \<not> prefix p q \<and> \<not> prefix q p \<longrightarrow> lookup fs' q = lookup fs q)"
      by blast
  qed
  with p show "\<exists>p. fs_path h tempDir = Some p \<and>
         (p \<noteq> [] \<and> \<not> refuses h (Rm p) \<longrightarrow>
            (\<exists>fs'. cleanupTemp h tempDir fs = Returns () fs' \<and>
                   \<not> existsSync h tempDir fs' \<and>
                   (\<forall>r. lookup fs' (p @ r) = None) \<and>
                   (\<forall>q. \<not> prefix p q \<and> \<not> prefix q p \<longrightarrow> lookup fs' q = lookup fs q)))"
    by blast
qed

theorem cleanupTemp_removes_or_skips_witness:
  "existsSync sampleHost (js ''/tmp/work'') sampleFs \<and>
   fs_path sampleHost (js ''/tmp/work'') = Some [js ''tmp'', js ''work''] \<and>
   \<not> refuses sampleHost (Rm [js ''tmp'', js ''work'']) \<and>
   (\<exists>fs'. cleanupTemp sampleHost (js ''/tmp/work'') sampleFs = Returns () fs' \<and>
          \<not> existsSync sampleHost (js ''/tmp/work'') fs' \<and>
          lookup fs' [js ''tmp'', js ''work'', js ''test.txt''] = None) \<and>
   \<not> existsSync sampleHost (js ''/tmp/gone'') sampleFs \<and>
   cleanupTemp sampleHost (js ''/tmp/gone'') sampleFs = Returns () sampleFs"
proof -
  have ex: "existsSync sampleHost (js ''/tmp/work'') sampleFs"
    by (simp add: fs_eval sampleHost_def sampleFs_def)
  have p: "fs_path sampleHost (js ''/tmp/work'') = Some [js ''tmp'', js ''work'']"
    by (simp add: fs_eval sampleHost_def)
  have ok: "\<not> refuses sampleHost (Rm [js ''tmp'', js ''work''])"
    by (simp add: sampleHost_def)
  have nex: "\<not> existsSync sampleHost (js ''/tmp/gone'') sampleFs"
    by (simp add: fs_eval sampleHost_def sampleFs_def)
  from cleanupTemp_removes_or_skips [of sampleHost "js ''/tmp/work''" sampleFs] ex p ok
  obtain fs' where fs': "cleanupTemp sampleHost (js ''/tmp/work'') sampleFs = Returns () fs'"
    "\<not> existsSync sampleHost (js ''/tmp/work'') fs'"
    "\<forall>r. lookup fs' ([js ''tmp'', js ''work''] @ r) = None"
    by auto
  from fs'(3) have "lookup fs' ([js ''tmp'', js ''work''] @ [js ''test.txt'']) = None" by blast
  then have "lookup fs' [js ''tmp'', js ''work'', js ''test.txt''] = None" by simp
  moreover from cleanupTemp_removes_or_skips [of sampleHost "js ''/tmp/gone''" sampleFs] nex
  have "cleanupTemp sampleHost (js ''/tmp/gone'') sampleFs = Returns () sampleFs" by blast
  ultimately show ?thesis using ex p ok nex fs' by blast
qed

section \<open>Creating the project directory\<close>












section \<open>Joining a name to a path\<close>

text \<open>The path that \<open>path.join(s, n)\<close> builds for an entry name \<open>n\<close> resolves to the
  segments of \<open>s\<close> followed by \<open>n\<close>.\<close>

lemma split_on_append_gen:
  "split_on sep (xs @ sep # ys) = split_on sep xs @ split_on sep ys"
proof (induction xs)
  case Nil
  then show ?case by simp
next
  case (Cons c cs)
  then show ?case
    using split_on_nonempty [of sep cs] by (auto split: list.splits)
qed

lemma properSegment_split: "properSegment n \<Longrightarrow> split_on slash n = [n]"
  by (simp add: properSegment_def split_on_no_sep_id)

lemma normSegments_snoc_proper:
  "properSegment n \<Longrightarrow> normSegments a (segs @ [n]) = normSegments a segs @ [n]"
  by (simp add: normSegments_def normStep_proper)

lemma foldl_normStep_snoc_proper:
  "properSegment n \<Longrightarrow> foldl (normStep a) S (segs @ [n]) = foldl (normStep a) S segs @ [n]"
  by (simp add: normStep_proper)

lemma plainSegment_facts: "plainSegment e \<Longrightarrow> e \<noteq> [] \<and> slash \<notin> set e"
  by (auto simp: plainSegment_def properSegment_def js_def slash_def)

lemma normStep_True_keeps:
  assumes "\<forall>s \<in> set res. plainSegment s" and "slash \<notin> set seg"
  shows "\<forall>s \<in> set (normStep True res seg). plainSegment s"
  using assms by (auto simp: normStep_def plainSegment_def properSegment_def dest: in_set_butlastD)

lemma foldl_normStep_True_keeps:
  "\<forall>s \<in> set res. plainSegment s \<Longrightarrow> \<forall>seg \<in> set segs. slash \<notin> set seg \<Longrightarrow>
   \<forall>s \<in> set (foldl (normStep True) res segs). plainSegment s"
proof (induction segs arbitrary: res)
  case Nil
  then show ?case by simp
next
  case (Cons seg segs)
  have "\<forall>s \<in> set (normStep True res seg). plainSegment s"
    using Cons.prems by (intro normStep_True_keeps) auto
  with Cons show ?case by simp
qed

lemma normSegments_True_plain:
  "\<forall>seg \<in> set segs. slash \<notin> set seg \<Longrightarrow> \<forall>s \<in> set (normSegments True segs). plainSegment s"
  unfolding normSegments_def by (rule foldl_normStep_True_keeps) auto

lemma normSegments_plain:
  assumes "\<forall>seg \<in> set segs. slash \<notin> set seg"
  shows "\<forall>s \<in> set (normSegments a segs). plainSegment s"
proof (cases a)
  case True
  with assms show ?thesis by (simp add: normSegments_True_plain)
next
  case False
  with normSegments_False_proper [OF assms] show ?thesis by (simp add: plainSegment_def)
qed

lemma normSegments_True_absorbed:
  assumes "\<forall>seg \<in> set segs. slash \<notin> set seg"
  shows "foldl (normStep False) S (normSegments True segs) = foldl (normStep False) S segs"
  using assms
proof (induction segs rule: rev_induct)
  case Nil
  then show ?case by (simp add: normSegments_def)
next
  case (snoc x segs)
  define N where "N = normSegments True segs"
  from snoc have IH: "foldl (normStep False) S N = foldl (normStep False) S segs"
    by (simp add: N_def)
  from snoc.prems have plain: "\<forall>s \<in> set N. plainSegment s"
    unfolding N_def by (intro normSegments_True_plain) auto
  have step: "normSegments True (segs @ [x]) = normStep True N x"
    by (simp add: normSegments_def N_def)
  show ?case
  proof (cases "x = [] \<or> x = js ''.''")
    case True
    then have "normStep True N x = N" "\<And>R. normStep False R x = R"
      by (auto simp: normStep_def)
    with step IH show ?thesis by simp
  next
    case skip: False
    show ?thesis
    proof (cases "x = js ''..''")
      case False
      with skip have "normStep True N x = N @ [x]" "\<And>R. normStep False R x = R @ [x]"
        by (auto simp: normStep_def)
      with step IH show ?thesis by simp
    next
      case True
      show ?thesis
      proof (cases "N \<noteq> [] \<and> last N \<noteq> js ''..''")
        case False
        with True have "normStep True N x = N @ [x]"
          by (auto simp: normStep_def js_def)
        with step IH show ?thesis by simp
      next
        case pop: True
        with True have n: "normStep True N x = butlast N"
          by (auto simp: normStep_def js_def)
        from pop have N: "N = butlast N @ [last N]" by simp
        from pop plain have "properSegment (last N)"
          by (auto simp: plainSegment_def)
        then have "foldl (normStep False) S (butlast N @ [last N]) =
            foldl (normStep False) S (butlast N) @ [last N]"
          by (rule foldl_normStep_snoc_proper)
        with N have e: "foldl (normStep False) S N = foldl (normStep False) S (butlast N) @ [last N]"
          by simp
        have "foldl (normStep False) S (segs @ [x]) = normStep False (foldl (normStep False) S N) x"
          using IH by simp
        also have "\<dots> = foldl (normStep False) S (butlast N)"
          using True pop by (simp add: e normStep_def js_def)
        finally show ?thesis using step n by simp
      qed
    qed
  qed
qed

lemma join_with_nonempty:
  "segs \<noteq> [] \<Longrightarrow> hd segs \<noteq> [] \<Longrightarrow> join_with sep segs \<noteq> [] \<and> hd (join_with sep segs) = hd (hd segs)"
  by (induction sep segs rule: join_with.induct) auto

lemma join_with_snoc_last:
  "n \<noteq> [] \<Longrightarrow> join_with sep (segs @ [n]) \<noteq> [] \<and> last (join_with sep (segs @ [n])) = last n"
proof (induction sep segs rule: join_with.induct)
  case (1 sep)
  then show ?case by simp
next
  case (2 sep x)
  then show ?case by simp
next
  case (3 sep x y r)
  then show ?case by simp
qed

lemma normSegments_skip_empty: "normSegments a ([] # segs) = normSegments a segs"
  by (simp add: normSegments_def normStep_def)

lemma normSegments_False_idem:
  assumes "\<forall>seg \<in> set segs. slash \<notin> set seg"
  shows "normSegments False (normSegments False segs) = normSegments False segs"
  using normSegments_False_proper [OF assms] by (rule normSegments_proper)

lemma fs_path_join_nonempty:
  assumes n: "properSegment n" and s: "s \<noteq> []"
  shows "\<exists>d. fs_path h s = Some d \<and> fs_path h (path_join [s, n]) = Some (d @ [n])"
proof -
  define abs where "abs = (hd s = slash)"
  define pre where "pre = (if abs then [] else split_on slash (process_cwd h))"
  define M where "M = normSegments (\<not> abs) (split_on slash s)"
  define p where "p = join_with slash (M @ [n])"
  define R where "R = (if abs then slash # p else p)"
  from n have n': "n \<noteq> []" "slash \<notin> set n" "last n \<noteq> slash" "hd n \<noteq> slash"
    by (auto simp: properSegment_def) (metis last_in_set, metis hd_in_set)
  have d: "fs_path h s = Some (normSegments False (pre @ split_on slash s))"
    using s by (simp add: fs_path_def pre_def abs_def)
  have free: "\<forall>seg \<in> set (split_on slash s). slash \<notin> set seg"
    by (auto dest: split_on_no_sep)
  have plainM: "\<forall>e \<in> set M. plainSegment e"
    unfolding M_def using free by (rule normSegments_plain)
  have freeMn: "\<forall>seg \<in> set (M @ [n]). slash \<notin> set seg"
    using plainM n' by (auto dest: plainSegment_facts)
  have hdMn: "hd (M @ [n]) \<noteq> []" "slash \<notin> set (hd (M @ [n]))"
    using plainM n' by (cases M; auto dest: plainSegment_facts)+
  have pne: "p \<noteq> []" and plast: "last p = last n"
    using join_with_snoc_last [OF n'(1), of slash M] by (simp_all add: p_def)
  have phd: "hd p \<noteq> slash"
  proof -
    from join_with_nonempty [of "M @ [n]" slash] hdMn(1)
    have "hd p = hd (hd (M @ [n]))" by (simp add: p_def)
    with hdMn show ?thesis by (metis hd_in_set)
  qed
  have split_p: "split_on slash p = M @ [n]"
    unfolding p_def using freeMn by (intro split_on_join) auto
  have j: "path_join [s, n] = R"
  proof -
    have "split_on slash (s @ slash # n) = split_on slash s @ [n]"
      by (simp add: split_on_append_gen properSegment_split [OF n])
    then have "normalizeString (s @ slash # n) (\<not> abs) = p"
      by (simp add: normalizeString_def p_def M_def normSegments_snoc_proper [OF n])
    moreover have "hd (s @ slash # n) = hd s" using s by simp
    ultimately show ?thesis
      using s n' pne plast
      by (simp add: path_join_def path_normalize_def Let_def R_def abs_def)
  qed
  have Rne: "R \<noteq> []" using pne by (simp add: R_def)
  have Rhd: "(hd R = slash) = abs" using phd by (simp add: R_def)
  have splitR: "split_on slash R = (if abs then [] # (M @ [n]) else M @ [n])"
    using split_p by (simp add: R_def)
  have "fs_path h R = Some (normSegments False (pre @ M @ [n]))"
  proof (cases abs)
    case True
    then show ?thesis
      using Rne Rhd splitR by (simp add: fs_path_def pre_def normSegments_skip_empty)
  next
    case False
    then show ?thesis
      using Rne Rhd splitR by (simp add: fs_path_def pre_def)
  qed
  also have "normSegments False (pre @ M @ [n]) = normSegments False (pre @ M) @ [n]"
    using normSegments_snoc_proper [OF n, of False "pre @ M"] by simp
  also have "normSegments False (pre @ M) = normSegments False (pre @ split_on slash s)"
  proof (cases abs)
    case True
    then show ?thesis
      using normSegments_False_idem [OF free] by (simp add: pre_def M_def)
  next
    case False
    then show ?thesis
      using normSegments_True_absorbed [OF free, of "foldl (normStep False) [] pre"]
      by (simp add: M_def normSegments_def)
  qed
  finally show ?thesis using d j by simp
qed

lemma fs_path_join_empty:
  assumes n: "properSegment n"
  shows "fs_path h (path_join [[], n]) =
           Some (normSegments False (split_on slash (process_cwd h)) @ [n])"
proof -
  from n have n': "n \<noteq> []" "slash \<notin> set n" "last n \<noteq> slash" "hd n \<noteq> slash"
    by (auto simp: properSegment_def) (metis last_in_set, metis hd_in_set)
  have "normalizeString n True = n"
    using n by (simp add: normalizeString_def properSegment_split normSegments_proper)
  with n' have "path_join [[], n] = n"
    by (simp add: path_join_def path_normalize_def Let_def)
  then show ?thesis
    using n' normSegments_snoc_proper [OF n, of False "split_on slash (process_cwd h)"]
    by (simp add: fs_path_def properSegment_split [OF n])
qed

lemma fs_path_join:
  assumes "properSegment n"
  shows "\<exists>d. fs_path h (path_join [s, n]) = Some (d @ [n]) \<and> (s \<noteq> [] \<longrightarrow> fs_path h s = Some d)"
proof (cases "s = []")
  case True
  with fs_path_join_empty [OF assms, of h] show ?thesis by simp
next
  case False
  with fs_path_join_nonempty [OF assms False, of h] show ?thesis by blast
qed

section \<open>Writing files\<close>

lemma lookup_store_existing: "lookup t p = Some n \<Longrightarrow> lookup (store p v t) p = Some v"
proof (induction p arbitrary: t)
  case Nil
  then show ?case by simp
next
  case (Cons x p)
  then show ?case
    by (auto simp: update_conv' split: node.splits option.splits)
qed

lemma writeNode_over_file:
  assumes "p \<noteq> []" and "lookup fs p = Some (File c)"
  shows "writeNode p text fs = Inr (store p (File text) fs)"
proof -
  from assms(1) have "p = butlast p @ [last p]" by simp
  with assms(2) lookup_parent [of fs "butlast p" "last p" "File c"]
  obtain es where "lookup fs (butlast p) = Some (Dir es)" by auto
  with assms show ?thesis by (simp add: writeNode_def)
qed

lemma properSegment_package_json: "properSegment (js ''package.json'')"
  by (simp add: properSegment_def js_def slash_def)

lemma properSegment_serverless_yml: "properSegment (js ''serverless.yml'')"
  by (simp add: properSegment_def js_def slash_def)

lemma file_path_nonempty:
  "properSegment n \<Longrightarrow> fs_path h (path_join [s, n]) = Some p \<Longrightarrow> p \<noteq> []"
  using fs_path_join [of n h s] by auto

section \<open>Rewriting the service declaration\<close>

lemma getSubstitution_plain: "36 \<notin> set r \<Longrightarrow> getSubstitution m b a r = r"
  by (induction m b a r rule: getSubstitution.induct) auto

lemma serviceExec_partition:
  "serviceExec bol s = Some (pre, m, post) \<Longrightarrow>
   s = pre @ m @ post \<and> startsWith m (js ''service:'') \<and>
   (\<forall>u \<in> set (drop (length (js ''service:'')) m). \<not> isLineTerminator u) \<and>
   (post = [] \<or> isLineTerminator (hd post))"
proof (induction bol s arbitrary: pre rule: serviceExec.induct)
  case (1 atLineStart)
  then show ?case by simp
next
  case (2 atLineStart c cs)
  show ?case
  proof (cases "atLineStart \<and> startsWith (c # cs) (js ''service:'')")
    case True
    define rest where "rest = drop (length (js ''service:'')) (c # cs)"
    from True have t: "take (length (js ''service:'')) (c # cs) = js ''service:''"
      by (simp add: startsWith_def)
    from True "2.prems" have r: "pre = []"
      "m = js ''service:'' @ takeWhile (\<lambda>u. \<not> isLineTerminator u) rest"
      "post = dropWhile (\<lambda>u. \<not> isLineTerminator u) rest"
      by (simp_all add: rest_def Let_def)
    have "c # cs = take (length (js ''service:'')) (c # cs) @ rest"
      by (simp add: rest_def)
    with t r have "c # cs = pre @ m @ post" by simp
    moreover have "startsWith m (js ''service:'')" by (simp add: r startsWith_def)
    moreover have "\<forall>u \<in> set (drop (length (js ''service:'')) m). \<not> isLineTerminator u"
      by (auto simp: r dest: set_takeWhileD)
    moreover have "post = [] \<or> isLineTerminator (hd post)"
      using hd_dropWhile [of "\<lambda>u. \<not> isLineTerminator u" rest] by (auto simp: r)
    ultimately show ?thesis by blast
  next
    case False
    with "2.prems" obtain pre' where
      "serviceExec (isLineTerminator c) cs = Some (pre', m, post)" "pre = c # pre'"
      by (auto split: if_splits)
    with "2.IH" [OF False this(1)] show ?thesis by simp
  qed
qed

lemma replaceService_plain:
  assumes "36 \<notin> set name"
  shows "replaceService content (js ''service: '' @ name) =
     (case serviceExec True content of
        None \<Rightarrow> content
      | Some (pre, m, post) \<Rightarrow> pre @ js ''service: '' @ name @ post)"
proof -
  from assms have "36 \<notin> set (js ''service: '' @ name)" by (simp add: js_def)
  then show ?thesis
    by (simp add: replaceService_def getSubstitution_plain split: option.splits)
qed

lemmas sample_eval =
  js_def slash_def normStep_def normSegments_def fs_path_def existsSync_def
  sampleHost_def sampleFs_def path_join_def path_normalize_def normalizeString_def

text \<open>
  Claim C3 fails on the code for a project name that holds a replacement pattern. With
  the project name \<open>a$&b\<close> and the declaration \<open>service: starter-name\<close> the line
  written is \<open>service: aservice: starter-nameb\<close>, not \<open>service: a$&b\<close>.
\<close>

theorem updateServerlessYml_dollar_pattern:
  "updateServerlessYml sampleHost (js ''/w/project'') (js ''a$&b'') sampleFs =
     Returns ()
       (store [js ''w'', js ''project'', js ''serverless.yml'']
          (File (js ''service: aservice: starter-nameb'' @ [10] @ js ''provider:'' @ [10] @
                 js ''  name: aws'' @ [10])) sampleFs) \<and>
   js ''service: aservice: starter-nameb'' \<noteq> js ''service: a$&b''"
  by (simp add: sample_eval updateServerlessYml_def andThen_def lift_def readFileSync_def
      writeFileSync_def writeNode_def replaceService_def sampleYml_def startsWith_def
      isLineTerminator_def Let_def)

section \<open>Rewriting the package descriptor\<close>



lemma updatePackageJson_object:
  assumes loc: "fs_path h (path_join [projectPath, js ''package.json'']) = Some p"
    and content: "lookup fs p = Some (File text)" and rd: "\<not> refuses h (ReadFile p)"
    and parse: "JSON_parse h text = Some (JObject kvs)"
    and wr: "\<not> refuses h (WriteFile p)"
  shows "updatePackageJson h projectPath projectName fs =
     Returns ()
       (store p
          (File (JSON_stringify h
             (JObject (AList.update (js ''description'')
                         (JString (projectName @ js '' app description''))
                         (AList.update (js ''name'') (JString projectName) kvs))) 2)) fs)"
proof -
  from loc have "p \<noteq> []"
    by (rule file_path_nonempty [OF properSegment_package_json])
  then have "writeNode p c fs = Inr (store p (File c) fs)" for c
    using content by (rule writeNode_over_file)
  with assms show ?thesis
    by (simp add: updatePackageJson_def Let_def existsSync_def readFileSync_def andThen_def
        lift_def setProperty_def writeFileSync_def)
qed


lemmas json_eval =
  jsonHost_def samplePackage_def samplePackageText_def updatedPackage_def
  updatedPackageText_def quoted_def dquote_def


text \<open>
  Claim C10, as the code has it. The descriptor is a file that parses to an object, the
  host refuses neither the reading nor the writing of it, and \<open>JSON.parse\<close> reads back,
  from the text that \<open>JSON.stringify(pkg, null, 2)\<close> prints, the object \<open>pkg\<close> as the
  two assignments have left it. Then \<open>updatePackageJson\<close> returns, and the document in
  the file parses to an object that has, under every key other than \<open>name\<close> and
  \<open>description\<close>, the value the original had (and lacks the key where the original
  did).
\<close>

theorem updatePackageJson_keeps_other_fields:
  "fs_path h (path_join [projectPath, js ''package.json'']) = Some p \<and>
   lookup fs p = Some (File text) \<and> \<not> refuses h (ReadFile p) \<and> \<not> refuses h (WriteFile p) \<and>
   JSON_parse h text = Some (JObject kvs) \<and>
   setProperty (JObject kvs) (js ''name'') (JString projectName) = Inr named \<and>
   setProperty named (js ''description'') (JString (projectName @ js '' app description'')) =
     Inr pkg \<and>
   JSON_parse h (JSON_stringify h pkg 2) = Some pkg \<longrightarrow>
   (\<exists>text' kvs' fs'.
      updatePackageJson h projectPath projectName fs = Returns () fs' \<and>
      lookup fs' p = Some (File text') \<and>
      JSON_parse h text' = Some (JObject kvs') \<and>
      (\<forall>k. k \<noteq> js ''name'' \<and> k \<noteq> js ''description'' \<longrightarrow> map_of kvs' k = map_of kvs k))"
proof
  assume a: "fs_path h (path_join [projectPath, js ''package.json'']) = Some p \<and>
   lookup fs p = Some (File text) \<and> \<not> refuses h (ReadFile p) \<and> \<not> refuses h (WriteFile p) \<and>
   JSON_parse h text = Some (JObject kvs) \<and>
   setProperty (JObject kvs) (js ''name'') (JString projectName) = Inr named \<and>
   setProperty named (js ''description'') (JString (projectName @ js '' app description'')) =
     Inr pkg \<and>
   JSON_parse h (JSON_stringify h pkg 2) = Some pkg"
  define kvs' where "kvs' = AList.update (js ''description'')
      (JString (projectName @ js '' app description''))
      (AList.update (js ''name'') (JString projectName) kvs)"
  define fs' where "fs' = store p (File (JSON_stringify h (JObject kvs') 2)) fs"
  from a have pkg: "pkg = JObject kvs'"
    by (auto simp: setProperty_def kvs'_def)
  from a have run: "updatePackageJson h projectPath projectName fs = Returns () fs'"
    unfolding fs'_def kvs'_def using updatePackageJson_object by blast
  from a have written: "lookup fs' p = Some (File (JSON_stringify h (JObject kvs') 2))"
    unfolding fs'_def by (intro lookup_store_existing) blast
  from a pkg have reread: "JSON_parse h (JSON_stringify h (JObject kvs') 2) = Some (JObject kvs')"
    by simp
  have keep: "\<forall>k. k \<noteq> js ''name'' \<and> k \<noteq> js ''description'' \<longrightarrow> map_of kvs' k = map_of kvs k"
    by (simp add: kvs'_def update_conv')
  from run written reread keep show "\<exists>text' kvs' fs'.
      updatePackageJson h projectPath projectName fs = Returns () fs' \<and>
      lookup fs' p = Some (File text') \<and>
      JSON_parse h text' = Some (JObject kvs') \<and>
      (\<forall>k. k \<noteq> js ''name'' \<and> k \<noteq> js ''description'' \<longrightarrow> map_of kvs' k = map_of kvs k)"
    by blast
qed

theorem updatePackageJson_keeps_other_fields_witness:
  "fs_path jsonHost (path_join [js ''/w/project'', js ''package.json'']) =
     Some [js ''w'', js ''project'', js ''package.json''] \<and>
   lookup sampleFs [js ''w'', js ''project'', js ''package.json''] = Some (File samplePackageText) \<and>
   JSON_parse jsonHost samplePackageText =
     Some (JObject [(js ''name'', JString (js ''old'')), (js ''version'', JString (js ''1.0.0''))]) \<and>
   JSON_parse jsonHost (JSON_stringify jsonHost updatedPackage 2) = Some updatedPackage \<and>
   (\<exists>text' kvs' fs'.
      updatePackageJson jsonHost (js ''/w/project'') (js ''new-name'') sampleFs = Returns () fs' \<and>
      lookup fs' [js ''w'', js ''project'', js ''package.json''] = Some (File text') \<and>
      JSON_parse jsonHost text' = Some (JObject kvs') \<and>
      map_of kvs' (js ''version'') = Some (JString (js ''1.0.0'')))"
proof -
  have p: "fs_path jsonHost (path_join [js ''/w/project'', js ''package.json'']) =
     Some [js ''w'', js ''project'', js ''package.json'']"
    by (simp add: sample_eval json_eval)
  have f: "lookup sampleFs [js ''w'', js ''project'', js ''package.json''] =
      Some (File samplePackageText)"
    by (simp add: sampleFs_def js_def)
  have r: "\<not> refuses jsonHost op" for op
    by (simp add: jsonHost_def sampleHost_def)
  have good: "JSON_parse jsonHost samplePackageText =
      Some (JObject [(js ''name'', JString (js ''old'')), (js ''version'', JString (js ''1.0.0''))])"
    by (simp add: jsonHost_def samplePackage_def)
  have s1: "setProperty
        (JObject [(js ''name'', JString (js ''old'')), (js ''version'', JString (js ''1.0.0''))])
        (js ''name'') (JString (js ''new-name'')) =
      Inr (JObject [(js ''name'', JString (js ''new-name'')),
                    (js ''version'', JString (js ''1.0.0''))])"
    by (simp add: setProperty_def)
  have s2: "setProperty
        (JObject [(js ''name'', JString (js ''new-name'')),
                  (js ''version'', JString (js ''1.0.0''))])
        (js ''description'') (JString (js ''new-name'' @ js '' app description'')) =
      Inr updatedPackage"
    by (simp add: setProperty_def updatedPackage_def js_def)
  have rt: "JSON_parse jsonHost (JSON_stringify jsonHost updatedPackage 2) = Some updatedPackage"
    by (simp add: json_eval js_def)
  from updatePackageJson_keeps_other_fields
         [of jsonHost "js ''/w/project''" "[js ''w'', js ''project'', js ''package.json'']"
             sampleFs samplePackageText
             "[(js ''name'', JString (js ''old'')), (js ''version'', JString (js ''1.0.0''))]"
             "js ''new-name''"
             "JObject [(js ''name'', JString (js ''new-name'')),
                       (js ''version'', JString (js ''1.0.0''))]"
             updatedPackage]
       p f r good s1 s2 rt
  obtain text' kvs' fs' where k:
    "updatePackageJson jsonHost (js ''/w/project'') (js ''new-name'') sampleFs = Returns () fs'"
    "lookup fs' [js ''w'', js ''project'', js ''package.json''] = Some (File text')"
    "JSON_parse jsonHost text' = Some (JObject kvs')"
    "\<forall>k. k \<noteq> js ''name'' \<and> k \<noteq> js ''description'' \<longrightarrow>
       map_of kvs' k =
       map_of [(js ''name'', JString (js ''old'')), (js ''version'', JString (js ''1.0.0''))] k"
    by blast
  have "js ''version'' \<noteq> js ''name'' \<and> js ''version'' \<noteq> js ''description''"
    by (simp add: js_def)
  with k(4) have "map_of kvs' (js ''version'') = Some (JString (js ''1.0.0''))"
    by (simp add: js_def)
  with k have c: "\<exists>text' kvs' fs'.
      updatePackageJson jsonHost (js ''/w/project'') (js ''new-name'') sampleFs = Returns () fs' \<and>
      lookup fs' [js ''w'', js ''project'', js ''package.json''] = Some (File text') \<and>
      JSON_parse jsonHost text' = Some (JObject kvs') \<and>
      map_of kvs' (js ''version'') = Some (JString (js ''1.0.0''))"
    by blast
  from p f good rt c show ?thesis by blast
qed

lemmas overflow_eval =
  overflowHost_def overflowPackage_def overflowPackageText_def overflowRewritten_def
  overflowRewrittenText_def overflowReread_def overflowFs_def quoted_def dquote_def

text \<open>
  Without the condition on the reader and the printer the values are not kept. The
  descriptor \<open>{"name": "old", "limit": 1e999}\<close> parses to an object whose \<open>limit\<close> is
  \<open>Infinity\<close>; the file is rewritten with \<open>"limit": null\<close>, and the rewritten document
  has \<open>null\<close> under \<open>limit\<close>.
\<close>

theorem updatePackageJson_overflow_counterexample:
  "lookup overflowFs [js ''w'', js ''project'', js ''package.json''] =
     Some (File overflowPackageText) \<and>
   JSON_parse overflowHost overflowPackageText =
     Some (JObject [(js ''name'', JString (js ''old'')), (js ''limit'', JNumber PlusInfinity)]) \<and>
   updatePackageJson overflowHost (js ''/w/project'') (js ''new-name'') overflowFs =
     Returns () (store [js ''w'', js ''project'', js ''package.json'']
                   (File overflowRewrittenText) overflowFs) \<and>
   lookup (store [js ''w'', js ''project'', js ''package.json'']
             (File overflowRewrittenText) overflowFs)
       [js ''w'', js ''project'', js ''package.json''] = Some (File overflowRewrittenText) \<and>
   JSON_parse overflowHost overflowRewrittenText =
     Some (JObject [(js ''name'', JString (js ''new-name'')), (js ''limit'', JNull),
                    (js ''description'', JString (js ''new-name app description''))]) \<and>
   map_of [(js ''name'', JString (js ''old'')), (js ''limit'', JNumber PlusInfinity)] (js ''limit'') =
     Some (JNumber PlusInfinity) \<and>
   map_of [(js ''name'', JString (js ''new-name'')), (js ''limit'', JNull),
           (js ''description'', JString (js ''new-name app description''))] (js ''limit'') =
     Some JNull"
proof -
  have p: "fs_path overflowHost (path_join [js ''/w/project'', js ''package.json'']) =
     Some [js ''w'', js ''project'', js ''package.json'']"
    by (simp add: sample_eval overflowHost_def)
  have f: "lookup overflowFs [js ''w'', js ''project'', js ''package.json''] =
      Some (File overflowPackageText)"
    by (simp add: overflowFs_def js_def)
  have r: "\<not> refuses overflowHost op" for op
    by (simp add: overflowHost_def sampleHost_def)
  have good: "JSON_parse overflowHost overflowPackageText =
      Some (JObject [(js ''name'', JString (js ''old'')), (js ''limit'', JNumber PlusInfinity)])"
    by (simp add: overflowHost_def overflowPackage_def)
  have run: "updatePackageJson overflowHost (js ''/w/project'') (js ''new-name'') overflowFs =
     Returns () (store [js ''w'', js ''project'', js ''package.json'']
                   (File overflowRewrittenText) overflowFs)"
    using updatePackageJson_object [OF p f r good r, of "js ''new-name''"]
    by (simp add: overflowHost_def overflowRewritten_def js_def)
  have written: "lookup (store [js ''w'', js ''project'', js ''package.json'']
             (File overflowRewrittenText) overflowFs)
       [js ''w'', js ''project'', js ''package.json''] = Some (File overflowRewrittenText)"
    using f by (intro lookup_store_existing) simp
  have reread: "JSON_parse overflowHost overflowRewrittenText =
     Some (JObject [(js ''name'', JString (js ''new-name'')), (js ''limit'', JNull),
                    (js ''description'', JString (js ''new-name app description''))])"
    by (simp add: overflow_eval js_def)
  have m1: "map_of [(js ''name'', JString (js ''old'')), (js ''limit'', JNumber PlusInfinity)]
       (js ''limit'') = Some (JNumber PlusInfinity)"
    by (simp add: js_def)
  have m2: "map_of [(js ''name'', JString (js ''new-name'')), (js ''limit'', JNull),
           (js ''description'', JString (js ''new-name app description''))] (js ''limit'') =
     Some JNull"
    by (simp add: js_def)
  from f good run written reread m1 m2 show ?thesis by (intro conjI)
qed

section \<open>Acquiring the template\<close>

lemma trim_id:
  assumes "s \<noteq> []" "\<not> isWhiteSpace (hd s)" "\<not> isWhiteSpace (last s)"
  shows "trim s = s"
proof -
  from assms have "dropWhile isWhiteSpace s = s"
    by (cases s) auto
  moreover from assms have "dropWhile isWhiteSpace (rev s) = rev s"
    by (cases "rev s") (auto simp: hd_rev)
  ultimately show ?thesis by (simp add: trim_def)
qed

lemma set_join_with_subset: "set (join_with sep segs) \<subseteq> insert sep (\<Union>seg \<in> set segs. set seg)"
  by (induction sep segs rule: join_with.induct) auto

lemma set_join_with_supset: "(\<Union>seg \<in> set segs. set seg) \<subseteq> set (join_with sep segs)"
  by (induction sep segs rule: join_with.induct) auto

lemma set_absPath: "set (absPath p) = insert slash (\<Union>seg \<in> set p. set seg)"
  using set_join_with_subset [of slash p] set_join_with_supset [of p slash]
  by (auto simp: absPath_def)

lemma absPath_nonempty: "absPath p \<noteq> []" "hd (absPath p) = slash"
  by (simp_all add: absPath_def)

lemma split_absPath:
  assumes "\<forall>seg \<in> set p. properSegment seg" "p \<noteq> []"
  shows "split_on slash (absPath p) = [] # p"
proof -
  have "split_on slash (join_with slash p) = p"
    using assms by (intro split_on_join) (auto simp: properSegment_def)
  then show ?thesis by (simp add: absPath_def)
qed

lemma normSegments_absPath:
  assumes "\<forall>seg \<in> set p. properSegment seg"
  shows "normSegments a (split_on slash (absPath p)) = p"
proof (cases "p = []")
  case True
  then show ?thesis by (simp add: absPath_def normSegments_def normStep_def)
next
  case False
  with assms show ?thesis
    by (simp add: split_absPath normSegments_skip_empty normSegments_proper)
qed

lemma path_join_absPath:
  assumes p: "\<forall>seg \<in> set p. properSegment seg" and n: "properSegment n"
  shows "path_join [absPath p, n] = absPath (p @ [n])"
proof -
  from n have n': "n \<noteq> []" "last n \<noteq> slash"
    by (auto simp: properSegment_def) (metis last_in_set)
  have "split_on slash (absPath p @ slash # n) = split_on slash (absPath p) @ [n]"
    by (simp add: split_on_append_gen properSegment_split [OF n])
  then have "normSegments False (split_on slash (absPath p @ slash # n)) = p @ [n]"
    using normSegments_snoc_proper [OF n, of False "split_on slash (absPath p)"]
    by (simp add: normSegments_absPath [OF p])
  then have ns: "normalizeString (absPath p @ slash # n) False = join_with slash (p @ [n])"
    by (simp add: normalizeString_def)
  have j: "join_with slash (p @ [n]) \<noteq> []"
    using join_with_snoc_last [OF n'(1)] by blast
  have "hd (absPath p @ slash # n) = slash" by (simp add: absPath_def)
  with ns j n' show ?thesis
    by (simp add: path_join_def path_normalize_def Let_def absPath_nonempty) (simp add: absPath_def)
qed

lemma path_resolve_absPath:
  assumes "\<forall>seg \<in> set p. properSegment seg"
  shows "path_resolve cwd [absPath p] = absPath p"
proof -
  have r: "resolveArgs [absPath p, cwd] [] = (absPath p @ [slash], True)"
    by (simp add: absPath_def)
  have "split_on slash (absPath p @ slash # []) = split_on slash (absPath p) @ [[]]"
    by (simp only: split_on_append_gen split_on.simps)
  then have "normSegments False (split_on slash (absPath p @ [slash])) = p"
    using normSegments_absPath [OF assms, of False]
    by (simp add: normSegments_def normStep_def)
  with r show ?thesis
    by (simp add: path_resolve_def normalizeString_def absPath_def)
qed

lemma sanitizePath_absPath:
  assumes p: "\<forall>seg \<in> set p. properSegment seg" and l: "\<not> isWhiteSpace (last (absPath p))"
  shows "sanitizePath cwd (absPath p) =
     (if \<exists>c \<in> set (absPath p). c \<in> set dangerous
      then Inl (Error (js ''Invalid path: contains dangerous characters''))
      else Inr (absPath p))"
proof -
  have "\<not> isWhiteSpace slash" by (simp add: isWhiteSpace_def slash_def)
  then have t: "trim (absPath p) = absPath p"
    using l by (intro trim_id) (simp_all add: absPath_nonempty)
  have "\<not> startsWith (absPath p) (js ''-'')"
    by (simp add: startsWith_def absPath_def js_def slash_def)
  with t show ?thesis
    by (simp add: sanitizePath_cases absPath_nonempty path_resolve_absPath [OF p]
        path_normalize_absPath [OF p])
qed

lemma properSegment_literals:
  "properSegment (js ''create-stb-temp'')" "properSegment (js ''serverless'')"
  by (simp_all add: properSegment_def js_def slash_def)

lemma last_absPath_snoc: "n \<noteq> [] \<Longrightarrow> last (absPath (q @ [n])) = last n"
  using join_with_snoc_last [of n slash q] by (simp add: absPath_def)

lemma cloneBoilerplate_sanitized:
  assumes cwd: "startsWith (process_cwd h) (js ''/'')"
    and safe: "sanitizePath (process_cwd h) tempDir = Inr safe"
  shows "\<exists>q. (\<forall>seg \<in> set q. properSegment seg) \<and> safe = absPath q \<and>
     cloneBoilerplate h tempDir fs =
       (if \<exists>c \<in> set safe. c \<in> set dangerous
        then Throws (Error (js ''Invalid path: contains dangerous characters'')) fs
        else andThen (spawn h (gitClone (absPath (q @ [js ''create-stb-temp'']))) fs) (\<lambda>_ fs.
             andThen (spawn h (gitSparseCheckout (absPath (q @ [js ''create-stb-temp'']))) fs) (\<lambda>_ fs.
             Returns (absPath (q @ [js ''create-stb-temp'', js ''serverless''])) fs)))"
proof -
  from sanitizePath_absolute [OF cwd safe] obtain q
    where q: "\<forall>seg \<in> set q. properSegment seg" "safe = absPath q" by blast
  define dst where "dst = absPath (q @ [js ''create-stb-temp''])"
  have q': "\<forall>seg \<in> set (q @ [js ''create-stb-temp'']). properSegment seg"
    using q properSegment_literals by simp
  have j: "path_join [safe, js ''create-stb-temp''] = dst"
    using path_join_absPath [OF q(1) properSegment_literals(1)] q by (simp add: dst_def)
  have "last dst = last (js ''create-stb-temp'')"
    unfolding dst_def by (rule last_absPath_snoc) (simp add: js_def)
  then have "\<not> isWhiteSpace (last dst)"
    by (simp add: js_def isWhiteSpace_def)
  from sanitizePath_absPath [OF q'] this
  have s2: "sanitizePath (process_cwd h) dst =
     (if \<exists>c \<in> set dst. c \<in> set dangerous
      then Inl (Error (js ''Invalid path: contains dangerous characters''))
      else Inr dst)"
    by (simp add: dst_def)
  have "(\<exists>c \<in> set dst. c \<in> set dangerous) \<longleftrightarrow> (\<exists>c \<in> set safe. c \<in> set dangerous)"
    unfolding dst_def q(2) set_absPath
    by (auto simp: dangerous_def js_def)
  with s2 have s2': "sanitizePath (process_cwd h) dst =
     (if \<exists>c \<in> set safe. c \<in> set dangerous
      then Inl (Error (js ''Invalid path: contains dangerous characters''))
      else Inr dst)"
    by simp
  have j2: "path_join [dst, js ''serverless''] = absPath (q @ [js ''create-stb-temp'', js ''serverless''])"
    using path_join_absPath [OF q' properSegment_literals(2)] by (simp add: dst_def)
  have "cloneBoilerplate h tempDir fs =
       (if \<exists>c \<in> set safe. c \<in> set dangerous
        then Throws (Error (js ''Invalid path: contains dangerous characters'')) fs
        else andThen (spawn h (gitClone dst) fs) (\<lambda>_ fs.
             andThen (spawn h (gitSparseCheckout dst) fs) (\<lambda>_ fs.
             Returns (absPath (q @ [js ''create-stb-temp'', js ''serverless''])) fs)))"
    using safe j s2' j2
    by (simp add: cloneBoilerplate_def andThen_def lift_def Let_def gitClone_def
        gitSparseCheckout_def repoUrl_def cong: outcome.case_cong)
  with q show ?thesis unfolding dst_def by blast
qed

lemma join_with_snoc: "q \<noteq> [] \<Longrightarrow> join_with sep (q @ [n]) = join_with sep q @ sep # n"
  by (induction sep q rule: join_with.induct) auto

lemma absPath_snoc:
  assumes "\<forall>seg \<in> set q. properSegment seg"
  shows "absPath (q @ [n]) = childOf (absPath q) n"
proof (cases "q = []")
  case True
  then show ?thesis by (simp add: absPath_def childOf_def js_def slash_def)
next
  case False
  with assms have "hd q \<noteq> []" by (cases q) (auto simp: properSegment_def)
  with False have "join_with slash q \<noteq> []"
    using join_with_nonempty [of q slash] by blast
  then have "absPath q \<noteq> js ''/''" by (simp add: absPath_def js_def)
  with False show ?thesis by (simp add: childOf_def absPath_def join_with_snoc)
qed

text \<open>
  Claim C9. With an absolute working directory: a rejected \<open>tempDir\<close> makes
  \<open>cloneBoilerplate\<close> throw the sanitizer's error. Otherwise the clone destination is
  \<open>create-stb-temp\<close> beneath the sanitized directory and is sanitized in turn (which
  rejects it where the working directory brought a guarded character in); \<open>git clone\<close>
  and \<open>git sparse-checkout\<close> are run through \<open>execFileSync\<close> with their argument
  vectors, the fixed URL and \<open>serverless\<close>; an error of either is thrown on; and when
  both return, the result is \<open>serverless\<close> beneath the clone destination.
\<close>

theorem cloneBoilerplate_spec:
  "startsWith (process_cwd h) (js ''/'') \<longrightarrow>
   (\<forall>e. sanitizePath (process_cwd h) tempDir = Inl e \<longrightarrow>
        cloneBoilerplate h tempDir fs = Throws e fs) \<and>
   (\<forall>safe. sanitizePath (process_cwd h) tempDir = Inr safe \<longrightarrow>
      ((\<exists>c \<in> set safe. c \<in> set dangerous) \<longrightarrow>
         cloneBoilerplate h tempDir fs =
           Throws (Error (js ''Invalid path: contains dangerous characters'')) fs) \<and>
      (\<not> (\<exists>c \<in> set safe. c \<in> set dangerous) \<longrightarrow>
         (\<forall>e fs1. spawn h (gitClone (childOf safe (js ''create-stb-temp''))) fs = Throws e fs1 \<longrightarrow>
             cloneBoilerplate h tempDir fs = Throws e fs1) \<and>
         (\<forall>fs1 e fs2.
             spawn h (gitClone (childOf safe (js ''create-stb-temp''))) fs = Returns () fs1 \<and>
             spawn h (gitSparseCheckout (childOf safe (js ''create-stb-temp''))) fs1 = Throws e fs2 \<longrightarrow>
             cloneBoilerplate h tempDir fs = Throws e fs2) \<and>
         (\<forall>fs1 fs2.
             spawn h (gitClone (childOf safe (js ''create-stb-temp''))) fs = Returns () fs1 \<and>
             spawn h (gitSparseCheckout (childOf safe (js ''create-stb-temp''))) fs1 = Returns () fs2 \<longrightarrow>
             cloneBoilerplate h tempDir fs =
               Returns (childOf (childOf safe (js ''create-stb-temp'')) (js ''serverless'')) fs2)))"
proof (intro impI conjI allI)
  fix e
  assume "sanitizePath (process_cwd h) tempDir = Inl e"
  then show "cloneBoilerplate h tempDir fs = Throws e fs"
    by (simp add: cloneBoilerplate_def andThen_def lift_def)
next
  fix safe
  assume cwd: "startsWith (process_cwd h) (js ''/'')"
    and safe: "sanitizePath (process_cwd h) tempDir = Inr safe"
  from cloneBoilerplate_sanitized [OF cwd safe, of fs] obtain q where
    q: "\<forall>seg \<in> set q. properSegment seg" "safe = absPath q" and c: "cloneBoilerplate h tempDir fs =
       (if \<exists>c \<in> set safe. c \<in> set dangerous
        then Throws (Error (js ''Invalid path: contains dangerous characters'')) fs
        else andThen (spawn h (gitClone (absPath (q @ [js ''create-stb-temp'']))) fs) (\<lambda>_ fs.
             andThen (spawn h (gitSparseCheckout (absPath (q @ [js ''create-stb-temp'']))) fs) (\<lambda>_ fs.
             Returns (absPath (q @ [js ''create-stb-temp'', js ''serverless''])) fs)))"
    by blast
  have d: "absPath (q @ [js ''create-stb-temp'']) = childOf safe (js ''create-stb-temp'')"
    using absPath_snoc [OF q(1)] q(2) by simp
  have "\<forall>seg \<in> set (q @ [js ''create-stb-temp'']). properSegment seg"
    using q properSegment_literals by simp
  from absPath_snoc [OF this, of "js ''serverless''"]
  have r: "absPath (q @ [js ''create-stb-temp'', js ''serverless'']) =
      childOf (childOf safe (js ''create-stb-temp'')) (js ''serverless'')"
    by (simp add: d)
  note c' = c [unfolded d r]
  {
    assume "\<exists>c \<in> set safe. c \<in> set dangerous"
    then show "cloneBoilerplate h tempDir fs =
           Throws (Error (js ''Invalid path: contains dangerous characters'')) fs"
      by (simp add: c')
  }
  {
    fix e fs1
    assume "\<not> (\<exists>c \<in> set safe. c \<in> set dangerous)"
      and "spawn h (gitClone (childOf safe (js ''create-stb-temp''))) fs = Throws e fs1"
    then show "cloneBoilerplate h tempDir fs = Throws e fs1"
      by (simp add: c' andThen_def)
  }
  {
    fix fs1 e fs2
    assume "\<not> (\<exists>c \<in> set safe. c \<in> set dangerous)"
      and "spawn h (gitClone (childOf safe (js ''create-stb-temp''))) fs = Returns () fs1 \<and>
             spawn h (gitSparseCheckout (childOf safe (js ''create-stb-temp''))) fs1 = Throws e fs2"
    then show "cloneBoilerplate h tempDir fs = Throws e fs2"
      by (simp add: c' andThen_def)
  }
  {
    fix fs1 fs2
    assume "\<not> (\<exists>c \<in> set safe. c \<in> set dangerous)"
      and "spawn h (gitClone (childOf safe (js ''create-stb-temp''))) fs = Returns () fs1 \<and>
             spawn h (gitSparseCheckout (childOf safe (js ''create-stb-temp''))) fs1 = Returns () fs2"
    then show "cloneBoilerplate h tempDir fs =
               Returns (childOf (childOf safe (js ''create-stb-temp'')) (js ''serverless'')) fs2"
      by (simp add: c' andThen_def)
  }
qed

theorem cloneBoilerplate_spec_witness:
  "startsWith (process_cwd sampleHost) (js ''/'') \<and>
   sanitizePath (process_cwd sampleHost) (js ''/tmp/create-stb-17'') = Inr (js ''/tmp/create-stb-17'') \<and>
   cloneBoilerplate sampleHost (js ''/tmp/create-stb-17'') sampleFs =
     Returns (js ''/tmp/create-stb-17/create-stb-temp/serverless'') sampleFs \<and>
   cloneBoilerplate offlineHost (js ''/tmp/create-stb-17'') sampleFs =
     Throws (ChildProcessError (js ''Command failed: git'')) sampleFs \<and>
   cloneBoilerplate sampleHost (js ''/tmp/a;b'') sampleFs =
     Throws (Error (js ''Invalid path: contains dangerous characters'')) sampleFs"
proof -
  have cwd: "startsWith (process_cwd sampleHost) (js ''/'')"
    "startsWith (process_cwd offlineHost) (js ''/'')"
    by (simp_all add: sampleHost_def offlineHost_def startsWith_def js_def)
  have s: "sanitizePath (process_cwd sampleHost) (js ''/tmp/create-stb-17'') = Inr (js ''/tmp/create-stb-17'')"
    "sanitizePath (process_cwd offlineHost) (js ''/tmp/create-stb-17'') = Inr (js ''/tmp/create-stb-17'')"
    by (simp_all add: sampleHost_def offlineHost_def path_eval sanitizePath_def)
  have bad: "sanitizePath (process_cwd sampleHost) (js ''/tmp/a;b'') =
      Inl (Error (js ''Invalid path: contains dangerous characters''))"
    by (simp add: sampleHost_def path_eval sanitizePath_def)
  have clean: "\<not> (\<exists>c \<in> set (js ''/tmp/create-stb-17''). c \<in> set dangerous)"
    by (simp add: js_def dangerous_def)
  have sp: "spawn sampleHost call fs = Returns () fs"
    "spawn offlineHost call fs = Throws (ChildProcessError (js ''Command failed: git'')) fs" for call fs
    by (simp_all add: sampleHost_def offlineHost_def)
  have c: "childOf (childOf (js ''/tmp/create-stb-17'') (js ''create-stb-temp'')) (js ''serverless'') =
      js ''/tmp/create-stb-17/create-stb-temp/serverless''"
    by (simp add: childOf_def js_def slash_def)
  note t1 = cloneBoilerplate_spec [of sampleHost "js ''/tmp/create-stb-17''" sampleFs,
      THEN mp, OF cwd(1), THEN conjunct2, THEN spec, THEN mp, OF s(1),
      THEN conjunct2, THEN mp, OF clean]
  note t2 = cloneBoilerplate_spec [of offlineHost "js ''/tmp/create-stb-17''" sampleFs,
      THEN mp, OF cwd(2), THEN conjunct2, THEN spec, THEN mp, OF s(2),
      THEN conjunct2, THEN mp, OF clean]
  note t3 = cloneBoilerplate_spec [of sampleHost "js ''/tmp/a;b''" sampleFs,
      THEN mp, OF cwd(1), THEN conjunct1, THEN spec, THEN mp, OF bad]
  have a: "cloneBoilerplate sampleHost (js ''/tmp/create-stb-17'') sampleFs =
     Returns (js ''/tmp/create-stb-17/create-stb-temp/serverless'') sampleFs"
    using t1 [THEN conjunct2, THEN conjunct2, THEN spec, THEN spec, THEN mp, of sampleFs sampleFs]
    by (simp add: sp(1) c)
  have b: "cloneBoilerplate offlineHost (js ''/tmp/create-stb-17'') sampleFs =
     Throws (ChildProcessError (js ''Command failed: git'')) sampleFs"
    using t2 [THEN conjunct1, THEN spec, THEN spec, THEN mp,
        of "ChildProcessError (js ''Command failed: git'')" sampleFs]
    by (simp add: sp(2))
  have d: "cloneBoilerplate sampleHost (js ''/tmp/a;b'') sampleFs =
     Throws (Error (js ''Invalid path: contains dangerous characters'')) sampleFs"
    using t3 .
  from cwd(1) s(1) a b d show ?thesis by simp
qed

section \<open>Copying a tree\<close>

lemma readdirSync_dirents:
  "fs_path h s = Some p \<Longrightarrow> lookup fs p = Some (Dir es) \<Longrightarrow> \<not> refuses h (Readdir p) \<Longrightarrow>
   readdirSync h s fs = Inr (dirents es)"
  by (simp add: readdirSync_def dirents_def)

lemma disjoint_extend:
  assumes "\<not> prefix ps pd" "\<not> prefix pd ps"
  shows "\<not> prefix (ps @ a) (pd @ b)"
proof
  assume "prefix (ps @ a) (pd @ b)"
  then have "prefix ps (pd @ b)" by (metis append_prefixD)
  then have "prefix ps pd \<or> prefix pd ps"
    by (metis prefix_append prefix_def)
  with assms show False by blast
qed

lemma lookup_store_new:
  assumes "lookup t q = Some (Dir ds)"
  shows "lookup (store (q @ [x]) v t) (q @ [x]) = Some v"
  using lookup_store_parent [OF assms, of x v]
  by (simp add: lookup_append update_conv')

lemma copyFileSync_new:
  assumes "fs_path h src = Some p" "fs_path h dest = Some (q @ [x])"
    and "lookup fs p = Some (File content)" and "lookup fs q = Some (Dir ds)"
    and "map_of ds x = None" and "\<not> refuses h (CopyFile p (q @ [x]))"
  shows "copyFileSync h src dest fs = Returns () (store (q @ [x]) (File content) fs)"
proof -
  from assms(4,5) have "lookup fs (q @ [x]) = None"
    by (simp add: lookup_append)
  with assms(4) have "writeNode (q @ [x]) content fs = Inr (store (q @ [x]) (File content) fs)"
    by (simp add: writeNode_def)
  with assms show ?thesis by (simp add: copyFileSync_def)
qed

lemma copyEntries_mirror:
  assumes perm: "permissive h"
    and src: "fs_path h src = Some ps" and dest: "fs_path h dest = Some pd"
    and wf: "wellFormed (Dir es)" and dpt: "depth (Dir es) \<le> Suc m"
    and disj: "\<not> prefix ps pd" "\<not> prefix pd ps"
    and sub: "\<And>src' dest' ps' pd' sub fs'.
        fs_path h src' = Some ps' \<Longrightarrow> fs_path h dest' = Some pd' \<Longrightarrow>
        lookup fs' ps' = Some (Dir sub) \<Longrightarrow> wellFormed (Dir sub) \<Longrightarrow> depth (Dir sub) \<le> m \<Longrightarrow>
        \<not> prefix ps' pd' \<Longrightarrow> \<not> prefix pd' ps' \<Longrightarrow>
        (\<exists>q x ds. pd' = q @ [x] \<and> lookup fs' q = Some (Dir ds) \<and> map_of ds x = None) \<Longrightarrow>
        copyDir m h src' dest' fs' = Returns () (store pd' (Dir sub) fs')"
  shows "es = done @ todo \<Longrightarrow> lookup fs ps = Some (Dir es) \<Longrightarrow> lookup fs pd = Some (Dir done) \<Longrightarrow>
         copyEntries m h src dest (dirents todo) fs = Returns () (store pd (Dir es) fs)"
proof (induction todo arbitrary: "done" fs)
  case Nil
  then show ?case by (simp add: dirents_def store_same)
next
  case (Cons e rest)
  obtain name c where e: "e = (name, c)" by (cases e)
  from Cons.prems(1) e have es: "es = done @ (name, c) # rest" by simp
  from wf es have name: "properSegment name" and fresh: "name \<notin> fst ` set done"
    and wfc: "wellFormed c"
    by auto
  from fresh have absent: "map_of done name = None"
    by (simp add: map_of_eq_None_iff)
  from es absent have child: "map_of es name = Some c"
    by (simp add: map_add_def)
  from src have "src \<noteq> []" by (auto simp: fs_path_def split: if_splits)
  from fs_path_join_nonempty [OF name this, of h] src
  have sp: "fs_path h (path_join [src, name]) = Some (ps @ [name])" by simp
  from dest have "dest \<noteq> []" by (auto simp: fs_path_def split: if_splits)
  from fs_path_join_nonempty [OF name this, of h] dest
  have dp: "fs_path h (path_join [dest, name]) = Some (pd @ [name])" by simp
  from Cons.prems(2) child have lc: "lookup fs (ps @ [name]) = Some c"
    by (simp add: lookup_append)
  from perm have noref: "\<not> refuses h op" for op by (simp add: permissive_def)
  define fs2 where "fs2 = store (pd @ [name]) c fs"
  have step: "(if isDirectory c then copyDir m h (path_join [src, name]) (path_join [dest, name]) fs
               else copyFileSync h (path_join [src, name]) (path_join [dest, name]) fs) =
              Returns () fs2"
  proof (cases c)
    case (File content)
    with copyFileSync_new [OF sp dp _ Cons.prems(3) absent noref, of content] lc
    show ?thesis by (simp add: isDirectory_def fs2_def)
  next
    case (Dir sub)
    have "(name, c) \<in> set es" using es by simp
    from depth_child [OF this] dpt have d: "depth (Dir sub) \<le> m" using Dir by simp
    have "copyDir m h (path_join [src, name]) (path_join [dest, name]) fs =
        Returns () (store (pd @ [name]) (Dir sub) fs)"
    proof (rule sub [OF sp dp _ _ d])
      show "lookup fs (ps @ [name]) = Some (Dir sub)" using lc Dir by simp
      show "wellFormed (Dir sub)" using wfc Dir by simp
      show "\<not> prefix (ps @ [name]) (pd @ [name])" using disj by (rule disjoint_extend)
      show "\<not> prefix (pd @ [name]) (ps @ [name])" using disj(2,1) by (rule disjoint_extend)
      show "\<exists>q x ds. pd @ [name] = q @ [x] \<and> lookup fs q = Some (Dir ds) \<and> map_of ds x = None"
        using Cons.prems(3) absent by blast
    qed
    with Dir show ?thesis by (simp add: isDirectory_def fs2_def)
  qed
  have l2: "lookup fs2 pd = Some (Dir (done @ [(name, c)]))"
    unfolding fs2_def using lookup_store_parent [OF Cons.prems(3), of name c]
    by (simp add: update_absent [OF absent])
  have "\<not> prefix (pd @ [name]) (ps @ [])" using disj(2,1) by (rule disjoint_extend)
  moreover have "\<not> prefix (ps @ []) (pd @ [name])" using disj by (rule disjoint_extend)
  ultimately have l1: "lookup fs2 ps = Some (Dir es)"
    unfolding fs2_def using Cons.prems(2) by (simp add: lookup_store_frame)
  have es': "es = (done @ [(name, c)]) @ rest" using es by simp
  from Cons.IH [OF es' l1 l2]
  have "copyEntries m h src dest (dirents rest) fs2 = Returns () (store pd (Dir es) fs2)" .
  moreover have "store pd (Dir es) fs2 = store pd (Dir es) fs"
    unfolding fs2_def by (rule store_store_under)
  ultimately show ?case
    using step by (simp add: e dirents_def andThen_def Let_def)
qed

lemma copyDir_mirror:
  assumes perm: "permissive h"
  shows "fs_path h src = Some ps \<Longrightarrow> fs_path h dest = Some pd \<Longrightarrow>
     lookup fs ps = Some (Dir es) \<Longrightarrow> wellFormed (Dir es) \<Longrightarrow> depth (Dir es) \<le> n \<Longrightarrow>
     \<not> prefix ps pd \<Longrightarrow> \<not> prefix pd ps \<Longrightarrow>
     lookup fs pd = Some (Dir []) \<or>
       (\<exists>q x ds. pd = q @ [x] \<and> lookup fs q = Some (Dir ds) \<and> map_of ds x = None) \<Longrightarrow>
     copyDir n h src dest fs = Returns () (store pd (Dir es) fs)"
proof (induction n arbitrary: src dest ps pd es fs)
  case 0
  then show ?case by simp
next
  case (Suc m)
  from perm have noref: "\<not> refuses h op" for op by (simp add: permissive_def)
  have loop: "copyEntries m h src dest (dirents es) fs1 = Returns () (store pd (Dir es) fs1)"
    if "lookup fs1 ps = Some (Dir es)" "lookup fs1 pd = Some (Dir [])" for fs1
  proof (rule copyEntries_mirror [OF perm Suc.prems(1,2,4,5,6,7), where ?done = "[]"])
    fix src' dest' ps' pd' sub fs'
    assume "fs_path h src' = Some ps'" "fs_path h dest' = Some pd'"
      "lookup fs' ps' = Some (Dir sub)" "wellFormed (Dir sub)" "depth (Dir sub) \<le> m"
      "\<not> prefix ps' pd'" "\<not> prefix pd' ps'"
      "\<exists>q x ds. pd' = q @ [x] \<and> lookup fs' q = Some (Dir ds) \<and> map_of ds x = None"
    then show "copyDir m h src' dest' fs' = Returns () (store pd' (Dir sub) fs')"
      by (intro Suc.IH) auto
  next
    show "es = [] @ es" by simp
    show "lookup fs1 ps = Some (Dir es)" by (rule that)
    show "lookup fs1 pd = Some (Dir [])" by (rule that)
  qed
  from Suc.prems(8) show ?case
  proof
    assume t: "lookup fs pd = Some (Dir [])"
    with Suc.prems(1,2,3) noref loop [OF Suc.prems(3) t] show ?thesis
      by (simp add: existsSync_def andThen_def lift_def readdirSync_dirents)
  next
    assume "\<exists>q x ds. pd = q @ [x] \<and> lookup fs q = Some (Dir ds) \<and> map_of ds x = None"
    then obtain q x ds where q: "pd = q @ [x]" "lookup fs q = Some (Dir ds)" "map_of ds x = None"
      by blast
    define fs1 where "fs1 = store pd (Dir []) fs"
    from q have absent: "lookup fs pd = None" by (simp add: lookup_append)
    from q have mk: "mkdirp pd fs = Inr fs1"
      by (simp add: fs1_def mkdirp_one)
    have t: "lookup fs1 pd = Some (Dir [])"
      unfolding fs1_def q(1) using q(2) by (rule lookup_store_new)
    have s: "lookup fs1 ps = Some (Dir es)"
      unfolding fs1_def using Suc.prems(3,6,7) by (simp add: lookup_store_frame)
    have "store pd (Dir es) fs1 = store pd (Dir es) fs"
      unfolding fs1_def using store_store_under [of pd "Dir es" "[]" "Dir []" fs] by simp
    with Suc.prems(1,2) absent mk noref s loop [OF s t] show ?thesis
      by (simp add: existsSync_def mkdirSync_def andThen_def lift_def readdirSync_dirents)
  qed
qed

lemma copyDir_after_mkdir:
  assumes "permissive h" "fs_path h dest = Some pd" "mkdirp pd fs = Inr fs1"
    and "lookup fs1 pd = Some (Dir [])"
  shows "copyDir (Suc m) h src dest fs = copyDir (Suc m) h src dest fs1"
proof (cases "existsSync h dest fs")
  case True
  then obtain n where n: "lookup fs pd = Some n" using assms(2) by (auto simp: existsSync_def)
  have "\<not> prefix q pd \<Longrightarrow> lookup fs1 q = lookup fs q" for q
    using mkdirp_frame [OF assms(3)] by blast
  have "fs1 = fs"
  proof (cases n)
    case (File c)
    with n have "\<exists>q c. prefix q pd \<and> lookup fs q = Some (File c)" by blast
    then have "\<exists>e. mkdirp pd fs = Inl e" by (simp add: mkdirp_fails_iff)
    with assms(3) show ?thesis by auto
  next
    case (Dir ds)
    with n assms(3) mkdirp_existing [of fs pd ds] show ?thesis by simp
  qed
  then show ?thesis by simp
next
  case False
  from assms(1) have "\<not> refuses h (Mkdir pd)" by (simp add: permissive_def)
  with assms(2,3) have "mkdirSync h dest fs = Returns () fs1"
    by (simp add: mkdirSync_def)
  moreover from assms(2,4) have "existsSync h dest fs1" by (simp add: existsSync_def)
  ultimately show ?thesis using False by (simp add: andThen_def)
qed

text \<open>
  Claim C6. Let the source be a directory whose tree is well formed and no deeper than
  the recursion depth granted, and let the destination be absent or an empty directory,
  with no regular file on the way to it, neither inside the source nor holding it, on a
  host that refuses nothing. Then \<open>copyDir\<close> returns; every path beneath the destination
  holds what the same path beneath the source held (files with their content,
  directories with their entries, dot-names like any other); the directories on the way
  to the destination exist; the source is as it was; and so is every path beside the
  destination.
\<close>

theorem copyDir_mirrors_source:
  "permissive h \<and> fs_path h src = Some ps \<and> fs_path h dest = Some pd \<and>
   lookup fs ps = Some (Dir es) \<and> wellFormed (Dir es) \<and> depth (Dir es) \<le> fuel \<and>
   \<not> prefix ps pd \<and> \<not> prefix pd ps \<and>
   (lookup fs pd = None \<or> lookup fs pd = Some (Dir [])) \<and>
   (\<forall>q c. prefix q pd \<longrightarrow> lookup fs q \<noteq> Some (File c)) \<longrightarrow>
   (\<exists>fs'. copyDir fuel h src dest fs = Returns () fs' \<and>
          (\<forall>r. lookup fs' (pd @ r) = lookup fs (ps @ r)) \<and>
          (\<forall>q. prefix q pd \<longrightarrow> (\<exists>ds. lookup fs' q = Some (Dir ds))) \<and>
          (\<forall>r. lookup fs' (ps @ r) = lookup fs (ps @ r)) \<and>
          (\<forall>q. \<not> prefix q pd \<and> \<not> prefix pd q \<longrightarrow> lookup fs' q = lookup fs q))"
proof
  assume a: "permissive h \<and> fs_path h src = Some ps \<and> fs_path h dest = Some pd \<and>
   lookup fs ps = Some (Dir es) \<and> wellFormed (Dir es) \<and> depth (Dir es) \<le> fuel \<and>
   \<not> prefix ps pd \<and> \<not> prefix pd ps \<and>
   (lookup fs pd = None \<or> lookup fs pd = Some (Dir [])) \<and>
   (\<forall>q c. prefix q pd \<longrightarrow> lookup fs q \<noteq> Some (File c))"
  then have perm: "permissive h" and src: "fs_path h src = Some ps"
    and dest: "fs_path h dest = Some pd" and tree: "lookup fs ps = Some (Dir es)"
    and wf: "wellFormed (Dir es)" and dpt: "depth (Dir es) \<le> fuel"
    and disj: "\<not> prefix ps pd" "\<not> prefix pd ps"
    and target: "lookup fs pd = None \<or> lookup fs pd = Some (Dir [])"
    and nofile: "\<forall>q c. prefix q pd \<longrightarrow> lookup fs q \<noteq> Some (File c)"
    by blast+
  from dpt obtain m where fuel: "fuel = Suc m" by (cases fuel) auto
  from nofile have "\<not> (\<exists>e. mkdirp pd fs = Inl e)" by (simp add: mkdirp_fails_iff)
  then obtain fs1 where mk: "mkdirp pd fs = Inr fs1" by (cases "mkdirp pd fs") auto
  from target have t1: "lookup fs1 pd = Some (Dir [])"
  proof
    assume "lookup fs pd = None"
    with mk show ?thesis by (rule mkdirp_fresh)
  next
    assume e: "lookup fs pd = Some (Dir [])"
    with mk mkdirp_existing [of fs pd "[]"] show ?thesis by simp
  qed
  have frame1: "\<not> prefix q pd \<Longrightarrow> lookup fs1 q = lookup fs q" for q
    using mk by (rule mkdirp_frame)
  from frame1 [OF disj(1)] tree have s1: "lookup fs1 ps = Some (Dir es)" by simp
  define fs' where "fs' = store pd (Dir es) fs1"
  have "copyDir fuel h src dest fs = copyDir fuel h src dest fs1"
    unfolding fuel using perm dest mk t1 by (rule copyDir_after_mkdir)
  also have "\<dots> = Returns () fs'"
    unfolding fs'_def using perm src dest s1 wf dpt disj t1
    by (intro copyDir_mirror) auto
  finally have run: "copyDir fuel h src dest fs = Returns () fs'" .
  have d': "lookup fs' pd = Some (Dir es)"
    unfolding fs'_def using t1 by (rule lookup_store_existing)
  have s': "lookup fs' ps = Some (Dir es)"
    unfolding fs'_def using s1 disj by (simp add: lookup_store_frame)
  have mirror: "\<forall>r. lookup fs' (pd @ r) = lookup fs (ps @ r)"
    using d' tree by (simp add: lookup_append)
  have intact: "\<forall>r. lookup fs' (ps @ r) = lookup fs (ps @ r)"
    using s' tree by (simp add: lookup_append)
  have way: "\<forall>q. prefix q pd \<longrightarrow> (\<exists>ds. lookup fs' q = Some (Dir ds))"
  proof (intro allI impI)
    fix q assume "prefix q pd"
    then have "q = pd \<or> strict_prefix q pd" by (auto simp: strict_prefix_def)
    then show "\<exists>ds. lookup fs' q = Some (Dir ds)"
      using d' lookup_prefix_dir [OF d'] by blast
  qed
  have beside: "\<forall>q. \<not> prefix q pd \<and> \<not> prefix pd q \<longrightarrow> lookup fs' q = lookup fs q"
    unfolding fs'_def using frame1 by (simp add: lookup_store_frame)
  from run mirror way intact beside
  show "\<exists>fs'. copyDir fuel h src dest fs = Returns () fs' \<and>
          (\<forall>r. lookup fs' (pd @ r) = lookup fs (ps @ r)) \<and>
          (\<forall>q. prefix q pd \<longrightarrow> (\<exists>ds. lookup fs' q = Some (Dir ds))) \<and>
          (\<forall>r. lookup fs' (ps @ r) = lookup fs (ps @ r)) \<and>
          (\<forall>q. \<not> prefix q pd \<and> \<not> prefix pd q \<longrightarrow> lookup fs' q = lookup fs q)"
    by blast
qed

theorem copyDir_mirrors_source_witness:
  "permissive sampleHost \<and>
   fs_path sampleHost (js ''/w/template'') = Some [js ''w'', js ''template''] \<and>
   fs_path sampleHost (js ''/w/out/app'') = Some [js ''w'', js ''out'', js ''app''] \<and>
   lookup sampleFs [js ''w'', js ''template''] = Some (Dir sampleTemplate) \<and>
   wellFormed (Dir sampleTemplate) \<and> depth (Dir sampleTemplate) \<le> 2 \<and>
   lookup sampleFs [js ''w'', js ''out'', js ''app''] = None \<and>
   (\<exists>fs'. copyDir 2 sampleHost (js ''/w/template'') (js ''/w/out/app'') sampleFs = Returns () fs' \<and>
      lookup fs' [js ''w'', js ''out'', js ''app'', js ''file.txt''] = Some (File (js ''hello world'')) \<and>
      lookup fs' [js ''w'', js ''out'', js ''app'', js ''.dotfile''] = Some (File (js ''dotfile'')) \<and>
      lookup fs' [js ''w'', js ''out'', js ''app'', js ''sub'', js ''nested.txt''] =
        Some (File (js ''nested'')) \<and>
      lookup fs' [js ''w'', js ''template'', js ''sub'', js ''nested.txt''] =
        Some (File (js ''nested'')))"
proof -
  let ?ps = "[js ''w'', js ''template'']" and ?pd = "[js ''w'', js ''out'', js ''app'']"
  have perm: "permissive sampleHost"
    by (simp add: permissive_def sampleHost_def)
  have src: "fs_path sampleHost (js ''/w/template'') = Some ?ps"
    by (simp add: sample_eval)
  have dest: "fs_path sampleHost (js ''/w/out/app'') = Some ?pd"
    by (simp add: sample_eval)
  have tree: "lookup sampleFs ?ps = Some (Dir sampleTemplate)"
    by (simp add: sampleFs_def sampleTemplate_def js_def)
  have wf: "wellFormed (Dir sampleTemplate)"
    by (simp add: sampleTemplate_def properSegment_def js_def slash_def)
  have dpt: "depth (Dir sampleTemplate) \<le> 2"
    by (simp add: sampleTemplate_def)
  have disj: "\<not> prefix ?ps ?pd" "\<not> prefix ?pd ?ps"
    by (simp_all add: js_def)
  have absent: "lookup sampleFs ?pd = None"
    by (simp add: sampleFs_def js_def)
  have nofile: "\<forall>q c. prefix q ?pd \<longrightarrow> lookup sampleFs q \<noteq> Some (File c)"
    by (auto simp: prefix_Cons sampleFs_def js_def)
  from copyDir_mirrors_source
         [of sampleHost "js ''/w/template''" ?ps "js ''/w/out/app''" ?pd sampleFs sampleTemplate 2]
       perm src dest tree wf dpt disj absent nofile
  obtain fs' where run:
    "copyDir 2 sampleHost (js ''/w/template'') (js ''/w/out/app'') sampleFs = Returns () fs'"
    and mirror: "\<forall>r. lookup fs' (?pd @ r) = lookup sampleFs (?ps @ r)"
    and intact: "\<forall>r. lookup fs' (?ps @ r) = lookup sampleFs (?ps @ r)"
    by blast
  from mirror [THEN spec, of "[js ''file.txt'']"]
  have m1: "lookup fs' [js ''w'', js ''out'', js ''app'', js ''file.txt''] =
      Some (File (js ''hello world''))"
    by (simp add: sampleFs_def js_def)
  from mirror [THEN spec, of "[js ''.dotfile'']"]
  have m2: "lookup fs' [js ''w'', js ''out'', js ''app'', js ''.dotfile''] = Some (File (js ''dotfile''))"
    by (simp add: sampleFs_def js_def)
  from mirror [THEN spec, of "[js ''sub'', js ''nested.txt'']"]
  have m3: "lookup fs' [js ''w'', js ''out'', js ''app'', js ''sub'', js ''nested.txt''] =
      Some (File (js ''nested''))"
    by (simp add: sampleFs_def js_def)
  from intact [THEN spec, of "[js ''sub'', js ''nested.txt'']"]
  have m4: "lookup fs' [js ''w'', js ''template'', js ''sub'', js ''nested.txt''] =
      Some (File (js ''nested''))"
    by (simp add: sampleFs_def js_def)
  from perm src dest tree wf dpt absent run m1 m2 m3 m4 show ?thesis by blast
qed

section \<open>The orchestrator on failure\<close>

lemmas main_eval =
  mainSteps_def andThen_def lift_def checkNodeVersion_eq checkGitInstalled_def
  createProjectDirectory_def cloneBoilerplate_def sanitizePath_def path_eval
  fs_path_def existsSync_def mkdirSync_def readdirSync_def rmSync_def cleanupTemp_def
  tempDirOf_def decimal.simps repoUrl_def Let_def

lemma flaky_steps:
  "mainSteps 2 flakyHost (js ''app'') (js ''/w/app'') (js ''/tmp/create-stb-17'') sampleFs =
     Throws (ChildProcessError (js ''Command failed: git sparse-checkout'')) sampleFsAfterClone"
  by (simp add: main_eval flakyHost_def sampleHost_def cloneThenFail_def sampleFs_def
      sampleFsAfterClone_def)

lemma stuck_steps:
  "mainSteps 2 stuckHost (js ''app'') (js ''/w/app'') (js ''/tmp/create-stb-17'') sampleFs =
     Throws (ChildProcessError (js ''Command failed: git sparse-checkout'')) sampleFsAfterClone"
  by (simp add: main_eval stuckHost_def flakyHost_def sampleHost_def cloneThenFail_def sampleFs_def
      sampleFsAfterClone_def)

lemma properSegment_tempName: "properSegment (js ''create-stb-'' @ decimal n)"
proof -
  have "slash \<notin> set (decimal n)"
  proof
    assume "slash \<in> set (decimal n)"
    with decimal_digits [of n] have "isDigit slash" by (simp add: list_all_iff)
    then show False by (simp add: isDigit_def slash_def)
  qed
  moreover have "length (js ''create-stb-'' @ decimal n) > 2" by (simp add: js_def)
  then have "js ''create-stb-'' @ decimal n \<noteq> js ''.'' \<and> js ''create-stb-'' @ decimal n \<noteq> js ''..''"
    by (auto simp: js_def)
  ultimately show ?thesis by (simp add: properSegment_def) (simp add: js_def slash_def)
qed

lemma tempDir_path: "\<exists>p. fs_path h (tempDirOf h) = Some p \<and> p \<noteq> []"
  using fs_path_join [OF properSegment_tempName, of h "os_tmpdir h" "Date_now h"]
  by (auto simp: tempDirOf_def)

text \<open>
  Claim C2, as the code has it. When a step of the pipeline throws, \<open>main\<close> calls
  \<open>cleanupTemp\<close> on the temporary workspace and throws the step's error again, provided
  the cleanup returns: with no workspace there is nothing to remove, and a workspace
  that the host lets go is removed. A cleanup that fails is not swallowed: where the
  host refuses the removal, its error is what \<open>main\<close> throws, in place of the step's.
\<close>

theorem main_cleans_up_then_rethrows:
  "2 < length argv \<and> argv ! 2 \<noteq> [] \<and>
   mainSteps fuel h (argv ! 2) (path_resolve (process_cwd h) [process_cwd h, argv ! 2])
     (tempDirOf h) fs = Throws e fs1 \<longrightarrow>
   (\<exists>p. fs_path h (tempDirOf h) = Some p \<and> p \<noteq> [] \<and>
      (lookup fs1 p = None \<longrightarrow> main fuel h argv fs = Throws e fs1) \<and>
      (lookup fs1 p \<noteq> None \<and> \<not> refuses h (Rm p) \<longrightarrow>
         main fuel h argv fs = Throws e (remove p fs1) \<and>
         \<not> existsSync h (tempDirOf h) (remove p fs1)) \<and>
      (lookup fs1 p \<noteq> None \<and> refuses h (Rm p) \<longrightarrow>
         main fuel h argv fs = Throws (SystemError EACCES p) fs1))"
proof
  assume a: "2 < length argv \<and> argv ! 2 \<noteq> [] \<and>
   mainSteps fuel h (argv ! 2) (path_resolve (process_cwd h) [process_cwd h, argv ! 2])
     (tempDirOf h) fs = Throws e fs1"
  from tempDir_path obtain p where p: "fs_path h (tempDirOf h) = Some p" "p \<noteq> []" by blast
  from a have m: "main fuel h argv fs =
      andThen (cleanupTemp h (tempDirOf h) fs1) (\<lambda>_ fs2. Throws e fs2)"
    by (simp add: main_def Let_def)
  have c1: "lookup fs1 p = None \<longrightarrow> main fuel h argv fs = Throws e fs1"
    using p by (simp add: m cleanupTemp_def existsSync_def andThen_def)
  have c2: "lookup fs1 p \<noteq> None \<and> \<not> refuses h (Rm p) \<longrightarrow>
         main fuel h argv fs = Throws e (remove p fs1) \<and>
         \<not> existsSync h (tempDirOf h) (remove p fs1)"
    using p lookup_remove_under [OF p(2), of fs1 "[]"]
    by (auto simp: m cleanupTemp_def existsSync_def rmSync_def andThen_def)
  have c3: "lookup fs1 p \<noteq> None \<and> refuses h (Rm p) \<longrightarrow>
         main fuel h argv fs = Throws (SystemError EACCES p) fs1"
    using p by (auto simp: m cleanupTemp_def existsSync_def rmSync_def andThen_def)
  have "fs_path h (tempDirOf h) = Some p \<and> p \<noteq> [] \<and>
      (lookup fs1 p = None \<longrightarrow> main fuel h argv fs = Throws e fs1) \<and>
      (lookup fs1 p \<noteq> None \<and> \<not> refuses h (Rm p) \<longrightarrow>
         main fuel h argv fs = Throws e (remove p fs1) \<and>
         \<not> existsSync h (tempDirOf h) (remove p fs1)) \<and>
      (lookup fs1 p \<noteq> None \<and> refuses h (Rm p) \<longrightarrow>
         main fuel h argv fs = Throws (SystemError EACCES p) fs1)"
    using p c1 c2 c3 by (intro conjI)
  then show "\<exists>p. fs_path h (tempDirOf h) = Some p \<and> p \<noteq> [] \<and>
      (lookup fs1 p = None \<longrightarrow> main fuel h argv fs = Throws e fs1) \<and>
      (lookup fs1 p \<noteq> None \<and> \<not> refuses h (Rm p) \<longrightarrow>
         main fuel h argv fs = Throws e (remove p fs1) \<and>
         \<not> existsSync h (tempDirOf h) (remove p fs1)) \<and>
      (lookup fs1 p \<noteq> None \<and> refuses h (Rm p) \<longrightarrow>
         main fuel h argv fs = Throws (SystemError EACCES p) fs1)"
    by (rule exI)
qed

theorem main_cleans_up_then_rethrows_witness:
  "mainSteps 2 flakyHost (js ''app'') (js ''/w/app'') (js ''/tmp/create-stb-17'') sampleFs =
     Throws (ChildProcessError (js ''Command failed: git sparse-checkout'')) sampleFsAfterClone \<and>
   fs_path flakyHost (tempDirOf flakyHost) = Some [js ''tmp'', js ''create-stb-17''] \<and>
   lookup sampleFsAfterClone [js ''tmp'', js ''create-stb-17''] \<noteq> None \<and>
   \<not> refuses flakyHost (Rm [js ''tmp'', js ''create-stb-17'']) \<and>
   main 2 flakyHost [js ''node'', js ''create-stb'', js ''app''] sampleFs =
     Throws (ChildProcessError (js ''Command failed: git sparse-checkout''))
       (remove [js ''tmp'', js ''create-stb-17''] sampleFsAfterClone) \<and>
   \<not> existsSync flakyHost (tempDirOf flakyHost)
       (remove [js ''tmp'', js ''create-stb-17''] sampleFsAfterClone)"
proof -
  let ?argv = "[js ''node'', js ''create-stb'', js ''app'']"
  have len: "2 < length ?argv" by simp
  have name: "?argv ! 2 = js ''app''" by simp
  have n: "js ''app'' \<noteq> []" by (simp add: js_def)
  have pp: "path_resolve (process_cwd flakyHost) [process_cwd flakyHost, js ''app''] = js ''/w/app''"
    by (simp add: flakyHost_def sampleHost_def path_eval)
  have t: "tempDirOf flakyHost = js ''/tmp/create-stb-17''"
    by (simp add: flakyHost_def sampleHost_def tempDirOf_def path_eval decimal.simps)
  have fp: "fs_path flakyHost (tempDirOf flakyHost) = Some [js ''tmp'', js ''create-stb-17'']"
    by (simp add: t) (simp add: fs_path_def js_def slash_def normSegments_def normStep_def)
  have ex: "lookup sampleFsAfterClone [js ''tmp'', js ''create-stb-17''] \<noteq> None"
    by (simp add: sampleFsAfterClone_def js_def)
  have ok: "\<not> refuses flakyHost (Rm [js ''tmp'', js ''create-stb-17''])"
    by (simp add: flakyHost_def sampleHost_def)
  from main_cleans_up_then_rethrows
         [of ?argv 2 flakyHost sampleFs
             "ChildProcessError (js ''Command failed: git sparse-checkout'')" sampleFsAfterClone]
       len n flaky_steps
  obtain p where p: "fs_path flakyHost (tempDirOf flakyHost) = Some p"
    and r: "lookup sampleFsAfterClone p \<noteq> None \<and> \<not> refuses flakyHost (Rm p) \<longrightarrow>
         main 2 flakyHost ?argv sampleFs =
           Throws (ChildProcessError (js ''Command failed: git sparse-checkout''))
             (remove p sampleFsAfterClone) \<and>
         \<not> existsSync flakyHost (tempDirOf flakyHost) (remove p sampleFsAfterClone)"
    by (auto simp: name pp t)
  from p fp have "p = [js ''tmp'', js ''create-stb-17'']" by simp
  with r ex ok flaky_steps fp show ?thesis by simp
qed

text \<open>
  On \<open>stuckHost\<close> the step that fails throws the error of \<open>git sparse-checkout\<close>;
  \<open>main\<close> throws the \<open>EACCES\<close> of the removal instead.
\<close>

theorem main_cleanup_failure_counterexample:
  "mainSteps 2 stuckHost (js ''app'') (js ''/w/app'') (js ''/tmp/create-stb-17'') sampleFs =
     Throws (ChildProcessError (js ''Command failed: git sparse-checkout'')) sampleFsAfterClone \<and>
   main 2 stuckHost [js ''node'', js ''create-stb'', js ''app''] sampleFs =
     Throws (SystemError EACCES [js ''tmp'', js ''create-stb-17'']) sampleFsAfterClone"
proof -
  have p: "path_resolve (process_cwd stuckHost) [process_cwd stuckHost, js ''app''] = js ''/w/app''"
    by (simp add: stuckHost_def flakyHost_def sampleHost_def path_eval)
  have t: "tempDirOf stuckHost = js ''/tmp/create-stb-17''"
    by (simp add: stuckHost_def flakyHost_def sampleHost_def tempDirOf_def path_eval decimal.simps)
  have c: "cleanupTemp stuckHost (js ''/tmp/create-stb-17'') sampleFsAfterClone =
      Throws (SystemError EACCES [js ''tmp'', js ''create-stb-17'']) sampleFsAfterClone"
    by (simp add: cleanupTemp_def existsSync_def rmSync_def fs_path_def stuckHost_def flakyHost_def
        sampleHost_def sampleFsAfterClone_def js_def slash_def normSegments_def normStep_def)
  have n: "js ''app'' \<noteq> []"
    by (simp add: js_def)
  show ?thesis
    by (simp add: main_def p t n stuck_steps c andThen_def)
qed

end
